theory Spec2Isabelle
  imports Main
begin

section \<open>Machine arithmetic\<close>

text \<open>
  The kernel is compiled for a 32-bit \<^verbatim>\<open>unsigned\<close>.  Unsigned quantities are natural numbers
  and every operation of the source that can leave the range is wrapped explicitly.
\<close>

definition u32 :: "nat \<Rightarrow> nat" where
  "u32 n = n mod 2 ^ 32"

definition usub :: "nat \<Rightarrow> nat \<Rightarrow> nat" where
  "usub a b = (if b \<le> a then a - b else u32 (a + 2 ^ 32 - b))"

text \<open>Conversion of an \<^verbatim>\<open>int\<close> to \<^verbatim>\<open>unsigned\<close> (\<open>-1\<close> becomes \<open>2^32 - 1\<close>).\<close>

definition to_unsigned :: "int \<Rightarrow> nat" where
  "to_unsigned x = nat (x mod 2 ^ 32)"

text \<open>
  Modelled from the spec: \<^verbatim>\<open>DivRoundUp\<close> lives in \<^verbatim>\<open>lib/utility.hh\<close>, which is not among the
  sources; the specification uses it as the ceiling of the quotient.
\<close>

definition DivRoundUp :: "nat \<Rightarrow> nat \<Rightarrow> nat" where
  "DivRoundUp n s = n div s + (if n mod s > 0 then 1 else 0)"

section \<open>Disk geometry (\<^verbatim>\<open>raw_file_header.hh\<close>)\<close>

text \<open>
  Modelled from the spec: \<^verbatim>\<open>SECTOR_SIZE\<close> is declared in \<^verbatim>\<open>machine/disk.hh\<close>, which is
  not among the sources; the specification gives 128 bytes.  \<^verbatim>\<open>sizeof (int)\<close> is 4.
\<close>

definition SECTOR_SIZE :: nat where
  "SECTOR_SIZE = 128"

definition NUM_DIRECT :: nat where
  "NUM_DIRECT = (SECTOR_SIZE - 3 * 4) div 4"

definition MAX_DIRECT_SIZE :: nat where
  "MAX_DIRECT_SIZE = NUM_DIRECT * SECTOR_SIZE"

definition NUM_INDIRECT :: nat where
  "NUM_INDIRECT = SECTOR_SIZE div 4"

section \<open>The free-sector bitmap\<close>

text \<open>
  Modelled from the spec: \<^verbatim>\<open>lib/bitmap.cc\<close> is not among the sources.  A bitmap is the list of
  its bits, \<open>True\<close> for a marked sector.  \<^verbatim>\<open>Find\<close> returns a clear bit and marks it, or \<open>-1\<close>
  when every bit is marked; the lowest clear bit is taken.  \<^verbatim>\<open>CountClear\<close> counts the clear bits.
\<close>

type_synonym Bitmap = "bool list"

fun first_clear :: "Bitmap \<Rightarrow> nat option" where
  "first_clear [] = None"
| "first_clear (b # bs) = (if b then map_option Suc (first_clear bs) else Some 0)"

definition Bitmap_Find :: "Bitmap \<Rightarrow> int \<times> Bitmap" where
  "Bitmap_Find bm = (case first_clear bm of
      None \<Rightarrow> (- 1, bm)
    | Some i \<Rightarrow> (int i, bm[i := True]))"

definition CountClear :: "Bitmap \<Rightarrow> nat" where
  "CountClear bm = length (filter Not bm)"

definition Bitmap_Test :: "Bitmap \<Rightarrow> nat \<Rightarrow> bool" where
  "Bitmap_Test bm i = (i < length bm \<and> bm ! i)"

definition Bitmap_Mark :: "Bitmap \<Rightarrow> nat \<Rightarrow> Bitmap" where
  "Bitmap_Mark bm i = bm[i := True]"

definition Bitmap_Clear :: "Bitmap \<Rightarrow> nat \<Rightarrow> Bitmap" where
  "Bitmap_Clear bm i = bm[i := False]"

section \<open>File headers (\<^verbatim>\<open>file_header.cc\<close>)\<close>

text \<open>
  The raw header (\<open>numBytes\<close>, \<open>numSectors\<close>, \<open>indirSector\<close>, \<open>dataSectors\<close>) together with
  the two tables the class keeps beside it: \<open>firstIndir\<close>, the content of the single-indirect
  sector, and \<open>secondIndir\<close>, the data-sector pointers reached through it.  The sentinel for
  "none" is \<open>-1\<close>.
\<close>

record FileHeader =
  numBytes :: nat
  numSectors :: nat
  indirSector :: int
  dataSectors :: "nat list"
  firstIndir :: "int list"
  secondIndir :: "int list list"

text \<open>
  The ways the kernel stops instead of returning: a failed \<^verbatim>\<open>ASSERT\<close>, and the dereference
  of a null pointer.
\<close>

datatype error = AssertionFailed | NullDereference

text \<open>The loop \<^verbatim>\<open>for (i = i0; i < n; i++) raw.dataSectors[i] = freeMap->Find();\<close> of \<^verbatim>\<open>Allocate\<close>.\<close>

function alloc_direct :: "nat \<Rightarrow> nat \<Rightarrow> Bitmap \<Rightarrow> nat list \<Rightarrow> Bitmap \<times> nat list" where
  "alloc_direct i n fm ds =
     (if i < n then
        (case Bitmap_Find fm of (s, fm') \<Rightarrow> alloc_direct (Suc i) n fm' (ds[i := to_unsigned s]))
      else (fm, ds))"
  by pat_completeness auto
termination
  by (relation "measure (\<lambda>(i, n, fm, ds). n - i)") auto

declare alloc_direct.simps [simp del]

text \<open>
  The inner loop of \<^verbatim>\<open>Allocate\<close> over \<open>j\<close>: one row of \<open>secondIndir\<close> is filled while
  \<open>sectorsLeft > 0\<close>, the rest of the row gets the sentinel.
\<close>

function alloc_row :: "nat \<Rightarrow> Bitmap \<Rightarrow> int list \<Rightarrow> nat \<Rightarrow> Bitmap \<times> int list \<times> nat" where
  "alloc_row j fm row sectorsLeft =
     (if j < NUM_INDIRECT then
        (if sectorsLeft > 0 then
           (case Bitmap_Find fm of (s, fm') \<Rightarrow>
              alloc_row (Suc j) fm' (row[j := s]) (sectorsLeft - 1))
         else alloc_row (Suc j) fm (row[j := - 1]) sectorsLeft)
      else (fm, row, sectorsLeft))"
  by pat_completeness auto
termination
  by (relation "measure (\<lambda>(j, fm, row, sl). NUM_INDIRECT - j)") auto

declare alloc_row.simps [simp del]

text \<open>The outer loop of \<^verbatim>\<open>Allocate\<close> over \<open>i\<close>, in the branch \<open>indirSectors \<noteq> 0\<close>.\<close>

function alloc_indir ::
  "nat \<Rightarrow> nat \<Rightarrow> Bitmap \<Rightarrow> int list \<Rightarrow> int list list \<Rightarrow> nat
     \<Rightarrow> Bitmap \<times> int list \<times> int list list" where
  "alloc_indir i indirSectors fm fI sI sectorsLeft =
     (if i < NUM_INDIRECT then
        (if i < indirSectors then
           (case Bitmap_Find fm of (s, fm1) \<Rightarrow>
             (case alloc_row 0 fm1 (sI ! i) sectorsLeft of (fm2, row, sl) \<Rightarrow>
                alloc_indir (Suc i) indirSectors fm2 (fI[i := s]) (sI[i := row]) sl))
         else
           alloc_indir (Suc i) indirSectors fm (fI[i := - 1])
             (sI[i := replicate NUM_INDIRECT (- 1)]) sectorsLeft)
      else (fm, fI, sI))"
  by pat_completeness auto
termination
  by (relation "measure (\<lambda>(i, n, fm, fI, sI, sl). NUM_INDIRECT - i)") auto

declare alloc_indir.simps [simp del]

text \<open>
  \<^verbatim>\<open>FileHeader::Allocate\<close>.  First the value of \<open>indirSectors\<close> that the method computes
  before the check of the free space.
\<close>

definition Allocate_indirSectors :: "nat \<Rightarrow> nat" where
  "Allocate_indirSectors fileSize =
     (if fileSize > MAX_DIRECT_SIZE then
        (let indirData = fileSize - MAX_DIRECT_SIZE;
             indirSectors = DivRoundUp indirData SECTOR_SIZE
         in u32 (indirSectors + u32 (DivRoundUp indirSectors NUM_INDIRECT + 1)))
      else 0)"

text \<open>
  The header passed in is the object the method is called on (its \<open>dataSectors\<close> beyond the
  ones filled keep what they held).  The result is the returned flag, the free map and the
  header as the call leaves them.
\<close>

definition Allocate :: "Bitmap \<Rightarrow> FileHeader \<Rightarrow> nat \<Rightarrow> bool \<times> Bitmap \<times> FileHeader" where
  "Allocate freeMap h fileSize =
    (let h1 = h\<lparr>numBytes := fileSize, numSectors := DivRoundUp fileSize SECTOR_SIZE\<rparr>;
         indirSectors = Allocate_indirSectors fileSize
     in if CountClear freeMap < u32 (numSectors h1 + indirSectors) then (False, freeMap, h1)
        else
          (let dirSectors = min (numSectors h1) NUM_DIRECT in
           case alloc_direct 0 dirSectors freeMap (dataSectors h1) of (fm1, ds) \<Rightarrow>
             if indirSectors = 0 then
               (True, fm1,
                h1\<lparr>indirSector := - 1, dataSectors := ds,
                   firstIndir := replicate NUM_INDIRECT (- 1),
                   secondIndir := replicate NUM_INDIRECT (replicate NUM_INDIRECT (- 1))\<rparr>)
             else
               (case Bitmap_Find fm1 of (s, fm2) \<Rightarrow>
                 (let indirSectors' = usub indirSectors 1;
                      sectorsLeft = usub (numSectors h1) NUM_DIRECT
                  in case alloc_indir 0 indirSectors' fm2 (firstIndir h1) (secondIndir h1)
                            sectorsLeft of
                       (fm3, fI, sI) \<Rightarrow>
                         (True, fm3,
                          h1\<lparr>indirSector := s, dataSectors := ds,
                             firstIndir := fI, secondIndir := sI\<rparr>)))))"

text \<open>
  \<^verbatim>\<open>FileHeader::ByteToSector\<close>.  The source indexes the arrays without a check; an index
  outside an array is \<open>None\<close> here.  The \<^verbatim>\<open>int\<close> of \<open>secondIndir\<close> is returned as
  \<^verbatim>\<open>unsigned\<close>.
\<close>

definition ByteToSector :: "FileHeader \<Rightarrow> nat \<Rightarrow> nat option" where
  "ByteToSector h offset =
    (let sectorIndex = offset div SECTOR_SIZE in
     if sectorIndex < NUM_DIRECT then
       (if sectorIndex < length (dataSectors h) then Some (dataSectors h ! sectorIndex) else None)
     else
       (let indirSectorIndex = sectorIndex - NUM_DIRECT;
            firstIndirIndex = indirSectorIndex div NUM_INDIRECT;
            secondIndirIndex = indirSectorIndex mod NUM_INDIRECT
        in if firstIndirIndex < length (secondIndir h)
              \<and> secondIndirIndex < length (secondIndir h ! firstIndirIndex)
           then Some (to_unsigned (secondIndir h ! firstIndirIndex ! secondIndirIndex))
           else None))"

text \<open>
  The direct loop of \<^verbatim>\<open>Expand\<close>:
  \<^verbatim>\<open>for (i = oldSectors; i < min(numSectors, NUM_DIRECT); i++) { dataSectors[i] = Find(); newSectors--; }\<close>
\<close>

function expand_direct ::
  "nat \<Rightarrow> nat \<Rightarrow> Bitmap \<Rightarrow> nat list \<Rightarrow> nat \<Rightarrow> Bitmap \<times> nat list \<times> nat" where
  "expand_direct i n fm ds newSectors =
     (if i < n then
        (case Bitmap_Find fm of (s, fm') \<Rightarrow>
           expand_direct (Suc i) n fm' (ds[i := to_unsigned s]) (usub newSectors 1))
      else (fm, ds, newSectors))"
  by pat_completeness auto
termination
  by (relation "measure (\<lambda>(i, n, fm, ds, ns). n - i)") auto

declare expand_direct.simps [simp del]

text \<open>
  The inner loop of \<^verbatim>\<open>Expand\<close>:
  \<^verbatim>\<open>for (j = 0; j < NUM_INDIRECT && newSectors > 0; j++)
       if (secondIndir[i][j] == -1) { secondIndir[i][j] = Find(); newSectors--; }\<close>
\<close>

function expand_row :: "nat \<Rightarrow> Bitmap \<Rightarrow> int list \<Rightarrow> nat \<Rightarrow> Bitmap \<times> int list \<times> nat" where
  "expand_row j fm row newSectors =
     (if j < NUM_INDIRECT \<and> newSectors > 0 then
        (if row ! j = - 1 then
           (case Bitmap_Find fm of (s, fm') \<Rightarrow>
              expand_row (Suc j) fm' (row[j := s]) (usub newSectors 1))
         else expand_row (Suc j) fm row newSectors)
      else (fm, row, newSectors))"
  by pat_completeness auto
termination
  by (relation "measure (\<lambda>(j, fm, row, ns). NUM_INDIRECT - j)") auto

declare expand_row.simps [simp del]

text \<open>
  The outer loop of \<^verbatim>\<open>Expand\<close>:
  \<^verbatim>\<open>for (i = 0; i < NUM_INDIRECT && indirSectors > 0; i++) {
       if (firstIndir[i] == -1) { firstIndir[i] = Find(); indirSectors--; }
       <inner loop>
     }\<close>
\<close>

function expand_indir ::
  "nat \<Rightarrow> Bitmap \<Rightarrow> int list \<Rightarrow> int list list \<Rightarrow> nat \<Rightarrow> nat
     \<Rightarrow> Bitmap \<times> int list \<times> int list list" where
  "expand_indir i fm fI sI indirSectors newSectors =
     (if i < NUM_INDIRECT \<and> indirSectors > 0 then
        (case (if fI ! i = - 1 then
                 (case Bitmap_Find fm of (s, fm') \<Rightarrow> (fm', fI[i := s], usub indirSectors 1))
               else (fm, fI, indirSectors)) of
           (fm1, fI1, indirSectors1) \<Rightarrow>
             (case expand_row 0 fm1 (sI ! i) newSectors of
                (fm2, row, newSectors2) \<Rightarrow>
                  expand_indir (Suc i) fm2 fI1 (sI[i := row]) indirSectors1 newSectors2))
      else (fm, fI, sI))"
  by pat_completeness auto
termination
  by (relation "measure (\<lambda>(i, fm, fI, sI, is, ns). NUM_INDIRECT - i)") auto

declare expand_indir.simps [simp del]

text \<open>
  \<^verbatim>\<open>FileHeader::Expand\<close> in three parts.  First the number of new data sectors, from the free
  space on the last sector in use.
\<close>

definition onLastSector :: "FileHeader \<Rightarrow> nat" where
  "onLastSector h = (SECTOR_SIZE - numBytes h mod SECTOR_SIZE) mod SECTOR_SIZE"

definition Expand_newSectors :: "FileHeader \<Rightarrow> nat \<Rightarrow> nat" where
  "Expand_newSectors h newBytes =
     (let remainingData = (if newBytes > onLastSector h then newBytes - onLastSector h else 0)
      in DivRoundUp remainingData SECTOR_SIZE)"

text \<open>Then the number of sectors for the indirect tables.\<close>

definition Expand_indirSectors :: "FileHeader \<Rightarrow> nat \<Rightarrow> nat \<Rightarrow> nat" where
  "Expand_indirSectors h newBytes newSectors =
     (if indirSector h \<noteq> - 1 then
        (let onLastIndir = usub (numSectors h) NUM_DIRECT mod NUM_INDIRECT;
             remainingSectors = (if newSectors > onLastIndir then newSectors - onLastIndir else 0)
         in DivRoundUp remainingSectors NUM_INDIRECT)
      else if u32 (numBytes h + newBytes) > MAX_DIRECT_SIZE then
        (let onDirSectors = usub NUM_DIRECT (numSectors h)
         in u32 (DivRoundUp (usub newSectors onDirSectors) NUM_INDIRECT + 1))
      else 0)"

text \<open>Last, after the check of the free space, the part that updates the header and claims the sectors.\<close>

definition Expand_claim :: "Bitmap \<Rightarrow> FileHeader \<Rightarrow> nat \<Rightarrow> nat \<Rightarrow> nat \<Rightarrow> Bitmap \<times> FileHeader" where
  "Expand_claim freeMap h newBytes newSectors indirSectors =
     (let oldSectors = numSectors h;
          h1 = h\<lparr>numBytes := u32 (numBytes h + newBytes),
                 numSectors := u32 (numSectors h + newSectors)\<rparr>
      in case (if oldSectors < NUM_DIRECT then
                 expand_direct oldSectors (min (numSectors h1) NUM_DIRECT) freeMap
                   (dataSectors h1) newSectors
               else (freeMap, dataSectors h1, newSectors)) of
           (fm1, ds, newSectors1) \<Rightarrow>
             (let h2 = h1\<lparr>dataSectors := ds\<rparr> in
              if numSectors h2 > NUM_DIRECT then
                (case (if indirSector h2 = - 1 then
                         (case Bitmap_Find fm1 of (s, fm') \<Rightarrow>
                            (fm', h2\<lparr>indirSector := s\<rparr>, usub indirSectors 1))
                       else (fm1, h2, indirSectors)) of
                   (fm2, h3, indirSectors1) \<Rightarrow>
                     if indirSectors1 > 0 then
                       (case expand_indir 0 fm2 (firstIndir h3) (secondIndir h3)
                               indirSectors1 newSectors1 of
                          (fm3, fI, sI) \<Rightarrow> (fm3, h3\<lparr>firstIndir := fI, secondIndir := sI\<rparr>))
                     else (fm2, h3))
              else (fm1, h2)))"

text \<open>
  \<^verbatim>\<open>ASSERT(newBytes != 0)\<close> halts the kernel: the result is \<open>Inl AssertionFailed\<close>.  Otherwise
  the result is the returned flag with the free map and the header as the call leaves them.
\<close>

definition Expand :: "Bitmap \<Rightarrow> FileHeader \<Rightarrow> nat \<Rightarrow> error + bool \<times> Bitmap \<times> FileHeader" where
  "Expand freeMap h newBytes =
    (if newBytes = 0 then Inl AssertionFailed
     else
      (let newSectors = Expand_newSectors h newBytes;
           indirSectors = Expand_indirSectors h newBytes newSectors
       in if CountClear freeMap < u32 (newSectors + indirSectors) then Inr (False, freeMap, h)
          else (case Expand_claim freeMap h newBytes newSectors indirSectors of
                  (fm', h') \<Rightarrow> Inr (True, fm', h'))))"

section \<open>The synchronised console (\<^verbatim>\<open>synch_console.cc\<close>)\<close>

text \<open>
  \<^verbatim>\<open>SynchConsole::ReadBuffer\<close>.  The memory reached through the pointer \<open>buffer\<close> is a
  function from the index to the byte stored there, so that a store is recorded wherever it
  lands.  The characters the console will deliver are a list; \<^verbatim>\<open>ReadChar\<close> waits on a
  semaphore, so when the list runs out the call never returns, which is \<open>None\<close>.
  The result is the returned count, the memory and the characters not yet consumed.
\<close>

definition newline :: char where
  "newline = CHR 0x0A"

definition NUL :: char where
  "NUL = CHR 0x00"

function ReadBuffer_loop ::
  "nat \<Rightarrow> nat \<Rightarrow> (nat \<Rightarrow> char) \<Rightarrow> char list \<Rightarrow> (nat \<times> (nat \<Rightarrow> char) \<times> char list) option" where
  "ReadBuffer_loop i size' buffer inp =
     (if i < size' then
        (case inp of
           [] \<Rightarrow> None
         | ch # rest \<Rightarrow>
             (if ch = newline then Some (i, buffer(i := ch), rest)
              else ReadBuffer_loop (Suc i) size' (buffer(i := ch)) rest))
      else Some (i, buffer, inp))"
  by pat_completeness auto
termination
  by (relation "measure (\<lambda>(i, n, b, inp). n - i)") auto

declare ReadBuffer_loop.simps [simp del]

definition ReadBuffer ::
  "(nat \<Rightarrow> char) \<Rightarrow> nat \<Rightarrow> char list \<Rightarrow> (nat \<times> (nat \<Rightarrow> char) \<times> char list) option" where
  "ReadBuffer buffer size' inp =
     (case ReadBuffer_loop 0 size' buffer inp of
        None \<Rightarrow> None
      | Some (i, buffer', rest) \<Rightarrow> Some (i, buffer'(u32 (i + 1) := NUL), rest))"

text \<open>
  The number of characters of the input before the first newline, among the first \<open>n\<close>:
  the index at which the loop of \<^verbatim>\<open>ReadBuffer\<close> stops.
\<close>

definition line_len :: "nat \<Rightarrow> char list \<Rightarrow> nat" where
  "line_len n inp = length (takeWhile (\<lambda>c. c \<noteq> newline) (take n inp))"

section \<open>The core map (\<^verbatim>\<open>coremap.cc\<close>, \<^verbatim>\<open>address_space.cc\<close>)\<close>

text \<open>
  Modelled from the spec: \<^verbatim>\<open>machine/translation_entry.hh\<close> is not among the sources; the
  fields are the ones the specification lists.
\<close>

record TranslationEntry =
  virtualPage :: nat
  physicalPage :: int
  valid :: bool
  use :: bool
  dirty :: bool
  readOnly :: bool
  swap :: bool

text \<open>
  An address space is named by a number; the machine state holds the page table and the swap
  file of every live address space, the main memory (one page per frame) and the TLB.
  The core map holds the frame bitmap, the two arrays indexed by frame and the cursor.
  \<^verbatim>\<open>NUM_PHYS_PAGES\<close> (from \<^verbatim>\<open>machine/mmu.hh\<close>, not among the sources) is the length of the
  arrays.
\<close>

type_synonym page = "nat list"

record Coremap =
  physPagesMap :: Bitmap
  addrSpaces :: "nat list"
  virtualPages :: "nat list"
  victim :: nat

record Machine =
  pageTables :: "nat \<rightharpoonup> TranslationEntry list"
  swapFiles :: "nat \<Rightarrow> nat \<rightharpoonup> page"
  mainMemory :: "int \<Rightarrow> page"
  tlb :: "TranslationEntry list"

definition NUM_PHYS_PAGES :: "Coremap \<Rightarrow> nat" where
  "NUM_PHYS_PAGES cm = length (addrSpaces cm)"

text \<open>
  \<^verbatim>\<open>addrSpaces[f]->GetPage(virtualPages[f])\<close>: the entry of the page resident in frame \<open>f\<close>.
  The source dereferences without a check; a frame outside the arrays, an address space that
  is not live or a page outside its table is \<open>None\<close>.
\<close>

definition GetPage :: "Machine \<Rightarrow> nat \<Rightarrow> nat \<Rightarrow> TranslationEntry option" where
  "GetPage m a vpn =
     (case pageTables m a of
        None \<Rightarrow> None
      | Some pt \<Rightarrow> if vpn < length pt then Some (pt ! vpn) else None)"

definition frame_entry :: "Coremap \<Rightarrow> Machine \<Rightarrow> nat \<Rightarrow> TranslationEntry option" where
  "frame_entry cm m f =
     (if f < length (addrSpaces cm) \<and> f < length (virtualPages cm)
      then GetPage m (addrSpaces cm ! f) (virtualPages cm ! f) else None)"

definition set_entry :: "Machine \<Rightarrow> nat \<Rightarrow> nat \<Rightarrow> TranslationEntry \<Rightarrow> Machine" where
  "set_entry m a vpn e =
     (case pageTables m a of
        None \<Rightarrow> m
      | Some pt \<Rightarrow> m\<lparr>pageTables := (pageTables m)(a \<mapsto> pt[vpn := e])\<rparr>)"

text \<open>The number of frames whose resident page has its \<open>use\<close> bit set.\<close>

definition used_frames :: "Coremap \<Rightarrow> Machine \<Rightarrow> nat set" where
  "used_frames cm m =
     {f. f < NUM_PHYS_PAGES cm \<and> (case frame_entry cm m f of None \<Rightarrow> False | Some e \<Rightarrow> use e)}"

lemma GetPage_set_entry:
  "GetPage m a vpn = Some e0 \<Longrightarrow>
   GetPage (set_entry m a vpn e) a' vpn' =
     (if a' = a \<and> vpn' = vpn then Some e else GetPage m a' vpn')"
  by (auto simp: GetPage_def set_entry_def split: option.splits if_splits)

lemma frame_entry_victim [simp]:
  "frame_entry (cm\<lparr>victim := x\<rparr>) m f = frame_entry cm m f"
  by (simp add: frame_entry_def)

lemma frame_entry_set_entry:
  assumes "frame_entry cm m v = Some e0"
  shows "frame_entry cm (set_entry m (addrSpaces cm ! v) (virtualPages cm ! v) e) f =
     (if f < length (addrSpaces cm) \<and> f < length (virtualPages cm) then
        (if addrSpaces cm ! f = addrSpaces cm ! v \<and> virtualPages cm ! f = virtualPages cm ! v
         then Some e else frame_entry cm m f)
      else None)"
  using assms by (auto simp: frame_entry_def GetPage_set_entry split: if_splits)

lemma used_frames_decrease:
  assumes "frame_entry cm m (victim cm) = Some entry" and "use entry"
  shows "card (used_frames (cm\<lparr>victim := x\<rparr>)
            (set_entry m (addrSpaces cm ! victim cm) (virtualPages cm ! victim cm)
               (entry\<lparr>use := False\<rparr>)))
         < card (used_frames cm m)"
proof -
  let ?m' = "set_entry m (addrSpaces cm ! victim cm) (virtualPages cm ! victim cm)
               (entry\<lparr>use := False\<rparr>)"
  let ?A = "used_frames (cm\<lparr>victim := x\<rparr>) ?m'"
  let ?B = "used_frames cm m"
  have fin: "finite ?B" by (simp add: used_frames_def)
  have vlt: "victim cm < NUM_PHYS_PAGES cm"
    using assms(1) by (auto simp: frame_entry_def NUM_PHYS_PAGES_def split: if_splits)
  have vin: "victim cm \<in> ?B"
    using assms vlt by (simp add: used_frames_def)
  have vnot: "victim cm \<notin> ?A"
    using assms(1) by (auto simp: used_frames_def frame_entry_set_entry [OF assms(1)])
  have sub: "?A \<subseteq> ?B"
    by (auto simp: used_frames_def NUM_PHYS_PAGES_def frame_entry_set_entry [OF assms(1)]
             split: if_splits option.splits)
  from sub vin vnot have "?A \<subset> ?B" by blast
  with fin show ?thesis by (rule psubset_card_mono)
qed

text \<open>
  The \<^verbatim>\<open>while (entry->use == true)\<close> loop of \<^verbatim>\<open>Coremap::UpdateVictim\<close>.  Beside the state
  the function returns the list of the frames it passed (those whose \<open>use\<close> bit it cleared),
  oldest first; the list is not part of the program's state.
\<close>

function UpdateVictim_loop ::
  "Coremap \<Rightarrow> Machine \<Rightarrow> nat list \<Rightarrow> (Coremap \<times> Machine \<times> nat list) option" where
  "UpdateVictim_loop cm m passed =
     (case frame_entry cm m (victim cm) of
        None \<Rightarrow> None
      | Some entry \<Rightarrow>
          if use entry then
            UpdateVictim_loop
              (cm\<lparr>victim := (victim cm + 1) mod NUM_PHYS_PAGES cm\<rparr>)
              (set_entry m (addrSpaces cm ! victim cm) (virtualPages cm ! victim cm)
                 (entry\<lparr>use := False\<rparr>))
              (passed @ [victim cm])
          else Some (cm, m, passed))"
  by pat_completeness auto

text \<open>
  Every pass of the loop clears the \<open>use\<close> bit of the page in the frame under the cursor, so
  the number of frames whose page has the bit set decreases: the loop terminates from
  every state.
\<close>

termination UpdateVictim_loop
  by (relation "measure (\<lambda>(cm, m, passed). card (used_frames cm m))")
     (auto intro: used_frames_decrease)

declare UpdateVictim_loop.simps [simp del]

text \<open>
  \<^verbatim>\<open>Coremap::UpdateVictim\<close>: the cursor advances once, then the loop runs.  With no frame
  at all the remainder \<^verbatim>\<open>% NUM_PHYS_PAGES\<close> is undefined, which is \<open>None\<close>.
\<close>

definition UpdateVictim :: "Coremap \<Rightarrow> Machine \<Rightarrow> (Coremap \<times> Machine \<times> nat list) option" where
  "UpdateVictim cm m =
     (if NUM_PHYS_PAGES cm = 0 then None
      else UpdateVictim_loop (cm\<lparr>victim := (victim cm + 1) mod NUM_PHYS_PAGES cm\<rparr>) m [])"

text \<open>The loop over the TLB in \<^verbatim>\<open>SaveToSwap\<close>: the first entry of the frame is invalidated.\<close>

fun tlb_invalidate :: "TranslationEntry list \<Rightarrow> int \<Rightarrow> TranslationEntry list" where
  "tlb_invalidate [] pp = []"
| "tlb_invalidate (e # es) pp =
     (if physicalPage e = pp then e\<lparr>valid := False\<rparr> # es else e # tlb_invalidate es pp)"

text \<open>
  \<^verbatim>\<open>AddressSpace::SaveToSwap\<close> of address space \<open>a\<close>: a dirty page is written to the swap
  file at its own position and flagged \<open>swap\<close>; then the entry is invalidated.
\<close>

definition SaveToSwap :: "Machine \<Rightarrow> nat \<Rightarrow> nat \<Rightarrow> Machine option" where
  "SaveToSwap m a vpn =
     (case GetPage m a vpn of
        None \<Rightarrow> None
      | Some e \<Rightarrow>
          (let (e1, m1) =
                 (if dirty e then
                    (e\<lparr>swap := True\<rparr>,
                     m\<lparr>swapFiles := (swapFiles m)
                          (a := (swapFiles m a)(vpn \<mapsto> mainMemory m (physicalPage e)))\<rparr>)
                  else (e, m));
               e2 = e1\<lparr>valid := False, use := False, dirty := False\<rparr>;
               m2 = set_entry m1 a vpn e2
           in Some (m2\<lparr>tlb := tlb_invalidate (tlb m2) (physicalPage e2)\<rparr>)))"

text \<open>\<^verbatim>\<open>Coremap::FreePage\<close> (built with \<^verbatim>\<open>VMEM\<close>).\<close>

definition FreePage :: "Coremap \<Rightarrow> Machine \<Rightarrow> (Coremap \<times> Machine \<times> nat list) option" where
  "FreePage cm m =
     (case UpdateVictim cm m of
        None \<Rightarrow> None
      | Some (cm1, m1, passed) \<Rightarrow>
          (let cm2 = cm1\<lparr>physPagesMap := Bitmap_Clear (physPagesMap cm1) (victim cm1)\<rparr>;
               addrSpace = addrSpaces cm2 ! victim cm2;
               virtualPage' = virtualPages cm2 ! victim cm2
           in case SaveToSwap m1 addrSpace virtualPage' of
                None \<Rightarrow> None
              | Some m2 \<Rightarrow> Some (cm2, m2, passed)))"

text \<open>
  \<^verbatim>\<open>FreePage\<close> is called when the frame bitmap has no clear bit: every frame then holds a
  page of a live address space.
\<close>

definition all_frames_resident :: "Coremap \<Rightarrow> Machine \<Rightarrow> bool" where
  "all_frames_resident cm m =
     list_all (\<lambda>f. frame_entry cm m f \<noteq> None) [0..<NUM_PHYS_PAGES cm]"

text \<open>An entry with its \<open>use\<close> bit cleared, and the pages resident in a list of frames.\<close>

definition clear_use :: "TranslationEntry \<Rightarrow> TranslationEntry" where
  "clear_use e = e\<lparr>use := False\<rparr>"

definition resident_in :: "Coremap \<Rightarrow> nat list \<Rightarrow> nat \<Rightarrow> nat \<Rightarrow> bool" where
  "resident_in cm fs a vpn =
     list_ex (\<lambda>f. addrSpaces cm ! f = a \<and> virtualPages cm ! f = vpn) fs"

text \<open>
  A core map of two frames, both holding pages of address space 0 with the \<open>use\<close> bit set,
  the second one dirty.
\<close>

definition example_entry :: "nat \<Rightarrow> int \<Rightarrow> bool \<Rightarrow> TranslationEntry" where
  "example_entry vpn pp d =
     \<lparr>virtualPage = vpn, physicalPage = pp, valid = True, use = True, dirty = d,
      readOnly = False, swap = False\<rparr>"

definition example_machine :: Machine where
  "example_machine =
     \<lparr>pageTables = [0 \<mapsto> [example_entry 0 0 False, example_entry 1 1 True,
                            (example_entry 2 (- 1) False)\<lparr>valid := False, use := False\<rparr>]],
      swapFiles = (\<lambda>a. Map.empty),
      mainMemory = (\<lambda>f. if f = 0 then [10] else [11]),
      tlb = []\<rparr>"

definition example_coremap :: Coremap where
  "example_coremap =
     \<lparr>physPagesMap = [True, True], addrSpaces = [0, 0], virtualPages = [0, 1], victim = 0\<rparr>"

section \<open>File synchronisation records (\<^verbatim>\<open>file_synch.cc\<close>)\<close>

text \<open>
  The record of an open file.  Every method runs under \<open>fileLock\<close>, so a method that does
  not wait is one function on the record.
\<close>

record FileSynch =
  filepath :: string
  hdr :: FileHeader
  opened :: nat
  beingRemoved :: bool
  reading :: nat
  writing :: bool
  waitingToWrite :: nat

definition PATH_NAME_MAX_LEN :: nat where
  "PATH_NAME_MAX_LEN = 100"

definition FILE_NAME_MAX_LEN :: nat where
  "FILE_NAME_MAX_LEN = 20"

text \<open>The constructor; \<open>h\<close> is the header fetched from the header sector.\<close>

definition new_FileSynch :: "string \<Rightarrow> FileHeader \<Rightarrow> FileSynch" where
  "new_FileSynch path h =
     \<lparr>filepath = take PATH_NAME_MAX_LEN path, hdr = h, opened = 1, beingRemoved = False,
      reading = 0, writing = False, waitingToWrite = 0\<rparr>"





text \<open>
  The four reader/writer methods.  \<^verbatim>\<open>BeginReading\<close> and \<^verbatim>\<open>BeginWriting\<close> wait on the
  condition variable, which releases the lock; what a thread does to the record between
  two waits is atomic.  The atomic actions are therefore:
  \<^item> \<open>ReaderEnters\<close>: a thread in \<^verbatim>\<open>BeginReading\<close> finds \<open>writing || waitingToWrite > 0\<close>
    false and increments \<open>reading\<close>;
  \<^item> \<open>ReaderLeaves\<close>: \<^verbatim>\<open>FinishReading\<close>;
  \<^item> \<open>WriterArrives\<close>: the first statement of \<^verbatim>\<open>BeginWriting\<close>, \<open>waitingToWrite++\<close>;
  \<^item> \<open>WriterEnters\<close>: a thread in \<^verbatim>\<open>BeginWriting\<close> finds \<open>writing || reading > 0\<close> false,
    decrements \<open>waitingToWrite\<close> and sets \<open>writing\<close>;
  \<^item> \<open>WriterLeaves\<close>: \<^verbatim>\<open>FinishWriting\<close>.
  An action whose condition does not hold leaves the thread waiting: \<open>None\<close>.
\<close>

datatype rw_action = ReaderEnters | ReaderLeaves | WriterArrives | WriterEnters | WriterLeaves

fun rw_step :: "FileSynch \<Rightarrow> rw_action \<Rightarrow> FileSynch option" where
  "rw_step fs ReaderEnters =
     (if writing fs \<or> waitingToWrite fs > 0 then None
      else Some (fs\<lparr>reading := u32 (reading fs + 1)\<rparr>))"
| "rw_step fs ReaderLeaves = Some (fs\<lparr>reading := usub (reading fs) 1\<rparr>)"
| "rw_step fs WriterArrives = Some (fs\<lparr>waitingToWrite := u32 (waitingToWrite fs + 1)\<rparr>)"
| "rw_step fs WriterEnters =
     (if writing fs \<or> reading fs > 0 then None
      else Some (fs\<lparr>waitingToWrite := usub (waitingToWrite fs) 1, writing := True\<rparr>))"
| "rw_step fs WriterLeaves = Some (fs\<lparr>writing := False\<rparr>)"

text \<open>
  A sequence of actions run from a record; \<open>None\<close> when an action of the sequence has to
  wait in the state it meets.
\<close>

fun rw_run :: "FileSynch \<Rightarrow> rw_action list \<Rightarrow> FileSynch option" where
  "rw_run fs [] = Some fs"
| "rw_run fs (a # as) = (case rw_step fs a of None \<Rightarrow> None | Some fs' \<Rightarrow> rw_run fs' as)"

text \<open>
  A sequence in which \<^verbatim>\<open>FinishReading\<close> is called only by a reader that is inside, that
  is, only in a state with \<open>reading > 0\<close>.
\<close>

fun rw_paired :: "FileSynch \<Rightarrow> rw_action list \<Rightarrow> bool" where
  "rw_paired fs [] = True"
| "rw_paired fs (a # as) =
     ((a \<noteq> ReaderLeaves \<or> reading fs > 0) \<and>
      (case rw_step fs a of None \<Rightarrow> True | Some fs' \<Rightarrow> rw_paired fs' as))"

definition rw_invariant :: "FileSynch \<Rightarrow> bool" where
  "rw_invariant fs = ((writing fs \<and> reading fs = 0) \<or> (\<not> writing fs \<and> reading fs \<ge> 0))"

text \<open>
  The laws of the data model for a header: \<open>numSectors\<close> is the number of sectors that
  \<open>numBytes\<close> bytes need, and there is a single-indirect sector exactly when the direct
  pointers do not suffice.
\<close>

definition header_laws :: "FileHeader \<Rightarrow> bool" where
  "header_laws h =
     (numSectors h = DivRoundUp (numBytes h) SECTOR_SIZE
      \<and> ((indirSector h = - 1) = (numSectors h \<le> NUM_DIRECT)))"

text \<open>One bitmap extends another: the same sectors, and every marked sector still marked.\<close>

definition marks_kept :: "Bitmap \<Rightarrow> Bitmap \<Rightarrow> bool" where
  "marks_kept bm bm' = (length bm' = length bm \<and> (\<forall>i < length bm. bm ! i \<longrightarrow> bm' ! i))"

text \<open>
  The indirect tables of a header hold the sentinel in every slot, as \<^verbatim>\<open>Allocate\<close> leaves them
  for a file that fits in the direct pointers.
\<close>

definition tables_unused :: "FileHeader \<Rightarrow> bool" where
  "tables_unused h =
     (firstIndir h = replicate NUM_INDIRECT (- 1)
      \<and> secondIndir h = replicate NUM_INDIRECT (replicate NUM_INDIRECT (- 1)))"

text \<open>
  A header object as \<^verbatim>\<open>new FileHeader\<close> leaves it is not initialised by the source; this one,
  with no sector in any slot, stands for it where a concrete object is needed.
\<close>

definition fresh_header :: FileHeader where
  "fresh_header =
     \<lparr>numBytes = 0, numSectors = 0, indirSector = - 1, dataSectors = replicate NUM_DIRECT 0,
      firstIndir = replicate NUM_INDIRECT (- 1),
      secondIndir = replicate NUM_INDIRECT (replicate NUM_INDIRECT (- 1))\<rparr>"





text \<open>
  The sectors a header holds: the direct data sectors in use, the single-indirect sector and,
  up to the first sentinel of each table, the first-indirect sectors and the data sectors of
  their rows.  These are the slots that \<^verbatim>\<open>Allocate\<close> and \<^verbatim>\<open>Expand\<close> fill from the start of
  each table, and the sectors that \<^verbatim>\<open>FetchFrom\<close> and \<^verbatim>\<open>WriteBack\<close> visit.
\<close>

fun row_sectors :: "int list \<Rightarrow> nat list" where
  "row_sectors [] = []"
| "row_sectors (s # ss) = (if s = - 1 then [] else to_unsigned s # row_sectors ss)"

fun indir_sectors :: "int list \<Rightarrow> int list list \<Rightarrow> nat list" where
  "indir_sectors [] sI = []"
| "indir_sectors (f # fI) sI =
     (if f = - 1 then []
      else to_unsigned f # row_sectors (take NUM_INDIRECT (hd sI)) @ indir_sectors fI (tl sI))"


text \<open>A bitmap after \<^verbatim>\<open>Clear\<close> of each sector of a list.\<close>

definition clear_all :: "Bitmap \<Rightarrow> nat list \<Rightarrow> Bitmap" where
  "clear_all bm ss = foldl Bitmap_Clear bm ss"

text \<open>A bitmap whose first \<open>k\<close> sectors are marked and whose next \<open>m\<close> sectors are clear.\<close>

definition prefix_marked :: "nat \<Rightarrow> nat \<Rightarrow> Bitmap" where
  "prefix_marked k m = replicate k True @ replicate m False"


text \<open>A header of a file of 3700 bytes: all 29 direct pointers in use, 12 bytes free on the last sector.\<close>

definition direct_header_3700 :: FileHeader where
  "direct_header_3700 = fresh_header\<lparr>numBytes := 3700, numSectors := 29, dataSectors := [2..<31]\<rparr>"

text \<open>
  That header after a growth by 13 bytes with sectors 31, 32 and 33 clear: sector 31 holds
  the single-indirect table, sector 32 the first row and sector 33 the thirtieth data sector.
\<close>

definition crossed_header_3713 :: FileHeader where
  "crossed_header_3713 =
     direct_header_3700\<lparr>numBytes := 3713, numSectors := 30, indirSector := 31,
        firstIndir := (replicate NUM_INDIRECT (- 1))[0 := 32],
        secondIndir := (replicate NUM_INDIRECT (replicate NUM_INDIRECT (- 1)))
                         [0 := (replicate NUM_INDIRECT (- 1))[0 := 33]]\<rparr>"


section \<open>Directories (\<^verbatim>\<open>directory.cc\<close>, \<^verbatim>\<open>directory_entry.hh\<close>)\<close>

text \<open>
  A name is the string before the terminator.  \<^verbatim>\<open>strncpy(e.name, name, FILE_NAME_MAX_LEN)\<close>
  keeps the first \<open>FILE_NAME_MAX_LEN\<close> characters, and
  \<^verbatim>\<open>strncmp(a, b, n) == 0\<close> holds when the first \<open>n\<close> characters agree.
\<close>

record DirectoryEntry =
  inUse :: bool
  sector :: nat
  name :: string
  isDir :: bool

type_synonym RawDirectory = "DirectoryEntry list"

definition strncmp_eq :: "string \<Rightarrow> string \<Rightarrow> nat \<Rightarrow> bool" where
  "strncmp_eq a b n = (take n a = take n b)"

text \<open>
  \<^verbatim>\<open>sizeof (DirectoryEntry)\<close> depends on the compiler; the value of the usual layout (one
  byte, three of padding, four, twenty-one, one, two of padding) is taken.
\<close>

definition ENTRY_SIZE :: nat where
  "ENTRY_SIZE = 32"

definition NEW_DIR_ENTRIES :: nat where
  "NEW_DIR_ENTRIES = 5"

definition NUM_DIR_ENTRIES :: nat where
  "NUM_DIR_ENTRIES = 10"

definition DIRECTORY_FILE_SIZE :: nat where
  "DIRECTORY_FILE_SIZE = ENTRY_SIZE * NUM_DIR_ENTRIES"

text \<open>Modelled from the spec: sector 0 holds the free map's header and sector 1 the root directory's.\<close>

definition FREE_MAP_SECTOR :: nat where
  "FREE_MAP_SECTOR = 0"

definition DIRECTORY_SECTOR :: nat where
  "DIRECTORY_SECTOR = 1"

text \<open>An entry not in use; the other fields of such an entry are not initialised by the source.\<close>

definition unused_entry :: DirectoryEntry where
  "unused_entry = \<lparr>inUse = False, sector = 0, name = [], isDir = False\<rparr>"

text \<open>\<^verbatim>\<open>Directory::Directory(size)\<close>.\<close>

definition new_Directory :: "nat \<Rightarrow> RawDirectory" where
  "new_Directory size' = replicate size' unused_entry"

fun FindIndex_from :: "nat \<Rightarrow> RawDirectory \<Rightarrow> string \<Rightarrow> int" where
  "FindIndex_from i [] nm = - 1"
| "FindIndex_from i (e # es) nm =
     (if inUse e \<and> strncmp_eq (name e) nm FILE_NAME_MAX_LEN then int i
      else FindIndex_from (Suc i) es nm)"

definition FindIndex :: "RawDirectory \<Rightarrow> string \<Rightarrow> int" where
  "FindIndex table nm = FindIndex_from 0 table nm"

definition Directory_Find :: "RawDirectory \<Rightarrow> string \<Rightarrow> int" where
  "Directory_Find table nm =
     (let i = FindIndex table nm in if i \<noteq> - 1 then int (sector (table ! nat i)) else - 1)"

definition Directory_IsDir :: "RawDirectory \<Rightarrow> string \<Rightarrow> bool" where
  "Directory_IsDir table nm =
     (let i = FindIndex table nm in if i \<noteq> - 1 then isDir (table ! nat i) else False)"



text \<open>The first slot not in use, for the loop of \<^verbatim>\<open>Directory::Add\<close>.\<close>

fun first_unused :: "nat \<Rightarrow> RawDirectory \<Rightarrow> nat option" where
  "first_unused i [] = None"
| "first_unused i (e # es) = (if \<not> inUse e then Some i else first_unused (Suc i) es)"

definition fill_entry :: "RawDirectory \<Rightarrow> nat \<Rightarrow> string \<Rightarrow> nat \<Rightarrow> bool \<Rightarrow> RawDirectory" where
  "fill_entry table i nm sec d =
     table[i := (table ! i)\<lparr>inUse := True, name := take FILE_NAME_MAX_LEN nm, sector := sec,
                            isDir := d\<rparr>]"

section \<open>The file system (\<^verbatim>\<open>file_system.cc\<close>)\<close>

text \<open>
  The persistent state is the disk: the content of the free-map file, the header stored in
  each header sector (kept with the indirect tables \<^verbatim>\<open>WriteBack\<close> stores beside it), and
  the entries stored in each directory file, the file being named by its header sector.

  The state in memory is the registry of directories and free map (\<open>fsSynchList\<close>: for each
  registered header sector the header cached by the record's open file), the registry of
  open files (\<open>fileSynchList\<close>) and the current directory of the running thread.

  Modelled from the spec: \<^verbatim>\<open>open_file.cc\<close> is not among the sources.  An open file caches the
  header fetched from its header sector when it is constructed, \<^verbatim>\<open>Length\<close> is the
  \<open>numBytes\<close> of that header, and \<^verbatim>\<open>ReadAt\<close>/\<^verbatim>\<open>WriteAt\<close> from position 0 read and
  replace the content of the file.
\<close>

record FSState =
  diskFreeMap :: Bitmap
  diskHeaders :: "nat \<Rightarrow> FileHeader"
  diskDirs :: "nat \<Rightarrow> nat \<Rightarrow> DirectoryEntry"
  fsSynchList :: "nat \<rightharpoonup> FileHeader"
  fileSynchList :: "nat \<rightharpoonup> FileSynch"
  currentDir :: nat



text \<open>
  \<^verbatim>\<open>Directory::FetchFrom\<close> on a fresh \<^verbatim>\<open>Directory(0)\<close>, from the file whose header sector
  is \<open>dsec\<close> and whose cached header is \<open>dh\<close>.
\<close>

definition Directory_FetchFrom :: "FSState \<Rightarrow> nat \<Rightarrow> FileHeader \<Rightarrow> error + RawDirectory" where
  "Directory_FetchFrom st dsec dh =
     (let fileSize = numBytes dh;
          tableSize = fileSize div ENTRY_SIZE
      in if \<not> tableSize > 0 then Inl AssertionFailed
         else Inr (map (diskDirs st dsec) [0..<tableSize]))"

text \<open>\<^verbatim>\<open>Directory::WriteBack\<close> to the file whose header sector is \<open>dsec\<close>, cached header \<open>dh\<close>.\<close>

definition Directory_WriteBack ::
  "FSState \<Rightarrow> nat \<Rightarrow> FileHeader \<Rightarrow> RawDirectory \<Rightarrow> error + FSState" where
  "Directory_WriteBack st dsec dh table =
     (let fileSize = numBytes dh in
      if fileSize \<noteq> length table * ENTRY_SIZE then Inl AssertionFailed
      else Inr (st\<lparr>diskDirs := (diskDirs st)
                  (dsec := (\<lambda>i. if i < length table then table ! i else diskDirs st dsec i))\<rparr>))"

text \<open>
  \<^verbatim>\<open>Directory::ExpandDirectory\<close>.  The header is the one cached by the directory's record; it
  is changed in place and, when \<^verbatim>\<open>Expand\<close> succeeds, written to its sector at once.
\<close>

definition ExpandDirectory ::
  "FSState \<Rightarrow> RawDirectory \<Rightarrow> Bitmap \<Rightarrow> nat
     \<Rightarrow> error + bool \<times> RawDirectory \<times> Bitmap \<times> FSState" where
  "ExpandDirectory st table freeMap dsec =
     (case fsSynchList st dsec of
        None \<Rightarrow> Inl NullDereference
      | Some dirH \<Rightarrow>
          (case Expand freeMap dirH (NEW_DIR_ENTRIES * ENTRY_SIZE) of
             Inl e \<Rightarrow> Inl e
           | Inr (success, freeMap', dirH') \<Rightarrow>
               if success then
                 Inr (True, table @ replicate NEW_DIR_ENTRIES unused_entry, freeMap',
                      st\<lparr>fsSynchList := (fsSynchList st)(dsec \<mapsto> dirH'),
                         diskHeaders := (diskHeaders st)(dsec := dirH')\<rparr>)
               else Inr (False, table, freeMap', st)))"

text \<open>\<^verbatim>\<open>Directory::Add\<close>.\<close>

definition Directory_Add ::
  "FSState \<Rightarrow> RawDirectory \<Rightarrow> string \<Rightarrow> nat \<Rightarrow> bool \<Rightarrow> Bitmap \<Rightarrow> nat
     \<Rightarrow> error + bool \<times> RawDirectory \<times> Bitmap \<times> FSState" where
  "Directory_Add st table nm sec d freeMap dsec =
     (if FindIndex table nm \<noteq> - 1 then Inr (False, table, freeMap, st)
      else
        (case first_unused 0 table of
           Some i \<Rightarrow> Inr (True, fill_entry table i nm sec d, freeMap, st)
         | None \<Rightarrow>
             (case ExpandDirectory st table freeMap dsec of
                Inl e \<Rightarrow> Inl e
              | Inr (success, table', freeMap', st') \<Rightarrow>
                  if success then
                    (let i = length table in
                     if inUse (table' ! i) then Inl AssertionFailed
                     else Inr (True, fill_entry table' i nm sec d, freeMap', st'))
                  else Inr (False, table', freeMap', st'))))"

text \<open>
  \<^verbatim>\<open>FileSystem::SplitPath\<close>: the directory part and the leaf name of a path.  With the empty
  path the source reads before the start of the string; that case is \<open>None\<close>.
\<close>

definition last_slash :: "string \<Rightarrow> nat" where
  "last_slash p = length p - 1 - length (takeWhile (\<lambda>c. c \<noteq> CHR ''/'') (rev p))"

definition SplitPath :: "string \<Rightarrow> (string \<times> string) option" where
  "SplitPath path =
     (if path = [] then None
      else
        (let dirPath = (if length path > 1 \<and> last path = CHR ''/'' then butlast path else path)
         in if CHR ''/'' \<notin> set dirPath then Some ([], dirPath)
            else
              (let k = last_slash dirPath;
                   nm = drop (Suc k) dirPath
               in if k = 0 then Some (''/'', nm) else Some (take k dirPath, nm))))"

text \<open>The successive results of \<^verbatim>\<open>strtok(dirPath, "/")\<close>: the non-empty pieces between slashes.\<close>

fun strtok_all :: "string \<Rightarrow> string \<Rightarrow> string list" where
  "strtok_all [] cur = (if cur = [] then [] else [cur])"
| "strtok_all (c # cs) cur =
     (if c = CHR ''/'' then (if cur = [] then strtok_all cs [] else cur # strtok_all cs [])
      else strtok_all cs (cur @ [c]))"

text \<open>
  The loop of \<^verbatim>\<open>FileSystem::FindDirectory\<close> over the tokens; \<open>dsec\<close> is the header sector of
  the directory record reached so far.  A sub-directory met for the first time is
  registered with a new open file.
\<close>

fun FindDirectory_walk :: "FSState \<Rightarrow> nat \<Rightarrow> string list \<Rightarrow> error + nat option \<times> FSState" where
  "FindDirectory_walk st dsec [] = Inr (Some dsec, st)"
| "FindDirectory_walk st dsec (token # rest) =
     (case fsSynchList st dsec of
        None \<Rightarrow> Inl NullDereference
      | Some dh \<Rightarrow>
          (case Directory_FetchFrom st dsec dh of
             Inl e \<Rightarrow> Inl e
           | Inr dir \<Rightarrow>
               if \<not> Directory_IsDir dir token then Inr (None, st)
               else
                 (let sec = nat (Directory_Find dir token);
                      st' = (case fsSynchList st sec of
                               None \<Rightarrow> st\<lparr>fsSynchList := (fsSynchList st)
                                                             (sec \<mapsto> diskHeaders st sec)\<rparr>
                             | Some _ \<Rightarrow> st)
                  in FindDirectory_walk st' sec rest)))"

definition FindDirectory :: "FSState \<Rightarrow> string \<Rightarrow> error + nat option \<times> FSState" where
  "FindDirectory st dirPath =
     (let start = (if dirPath \<noteq> [] \<and> hd dirPath = CHR ''/'' then DIRECTORY_SECTOR
                   else currentDir st)
      in if fsSynchList st start = None then Inl AssertionFailed
         else FindDirectory_walk st start (strtok_all dirPath []))"

text \<open>
  \<^verbatim>\<open>FileSystem::Create\<close>, after the path has been split and the directory found: \<open>dsec\<close>
  is the header sector of the directory record and \<open>nm\<close> the leaf name.  The bitmap and the
  directory image in memory are local to the call; only what is written back reaches the
  disk.
\<close>

definition Create_in :: "FSState \<Rightarrow> nat \<Rightarrow> string \<Rightarrow> nat \<Rightarrow> bool \<Rightarrow> error + bool \<times> FSState" where
  "Create_in st dsec nm initialSize d =
     (case fsSynchList st dsec of
        None \<Rightarrow> Inl NullDereference
      | Some dh \<Rightarrow>
     (case Directory_FetchFrom st dsec dh of
        Inl e \<Rightarrow> Inl e
      | Inr dir \<Rightarrow>
          if Directory_Find dir nm \<noteq> - 1 then Inr (False, st)
          else
            (case Bitmap_Find (diskFreeMap st) of (sector', freeMap1) \<Rightarrow>
               if sector' = - 1 then Inr (False, st)
               else
                 (case Directory_Add st dir nm (nat sector') d freeMap1 dsec of
                    Inl e \<Rightarrow> Inl e
                  | Inr (added, dir', freeMap2, st1) \<Rightarrow>
                      if \<not> added then Inr (False, st1)
                      else
                        (case Allocate freeMap2 fresh_header
                                (if d then DIRECTORY_FILE_SIZE else initialSize) of
                           (success, freeMap3, h) \<Rightarrow>
                             if \<not> success then Inr (False, st1)
                             else
                               (let st2 = st1\<lparr>diskHeaders := (diskHeaders st1)(nat sector' := h)\<rparr>
                                in case fsSynchList st2 dsec of
                                     None \<Rightarrow> Inl NullDereference
                                   | Some dh' \<Rightarrow>
                                  (case Directory_WriteBack st2 dsec dh' dir' of
                                     Inl e \<Rightarrow> Inl e
                                   | Inr st3 \<Rightarrow>
                                       (let st4 = st3\<lparr>diskFreeMap := freeMap3\<rparr> in
                                        if d then
                                          (case Directory_WriteBack st4 (nat sector')
                                                  (diskHeaders st4 (nat sector'))
                                                  (new_Directory NUM_DIR_ENTRIES) of
                                             Inl e \<Rightarrow> Inl e
                                           | Inr st5 \<Rightarrow> Inr (True, st5))
                                        else Inr (True, st4)))))))))"

text \<open>\<^verbatim>\<open>FileSystem::Create\<close>.\<close>

definition Create :: "FSState \<Rightarrow> string \<Rightarrow> nat \<Rightarrow> bool \<Rightarrow> error + bool \<times> FSState" where
  "Create st path initialSize d =
     (case SplitPath path of
        None \<Rightarrow> Inl NullDereference
      | Some (dirPath, nm) \<Rightarrow>
          (case FindDirectory st dirPath of
             Inl e \<Rightarrow> Inl e
           | Inr (None, st1) \<Rightarrow> Inr (False, st1)
           | Inr (Some dsec, st1) \<Rightarrow>
               if dsec = DIRECTORY_SECTOR \<and> d \<and> strncmp_eq ''SWAP.'' nm 5
               then Inr (False, st1)
               else Create_in st1 dsec nm initialSize d))"



text \<open>
  \<^verbatim>\<open>FileSystem::ExpandFile\<close>.  The header expanded is the one cached in the file's record; a
  file with no record makes the source dereference a null pointer.
\<close>

definition ExpandFile :: "FSState \<Rightarrow> nat \<Rightarrow> nat \<Rightarrow> error + bool \<times> FSState" where
  "ExpandFile st sector' numBytes' =
     (if numBytes' = 0 then Inl AssertionFailed
      else
        (case fileSynchList st sector' of
           None \<Rightarrow> Inl NullDereference
         | Some fileSynch \<Rightarrow>
             (case Expand (diskFreeMap st) (hdr fileSynch) numBytes' of
                Inl e \<Rightarrow> Inl e
              | Inr (success, freeMap', fileH) \<Rightarrow>
                  if success then
                    Inr (True,
                         st\<lparr>fileSynchList := (fileSynchList st)
                               (sector' \<mapsto> fileSynch\<lparr>hdr := fileH\<rparr>),
                            diskHeaders := (diskHeaders st)(sector' := fileH),
                            diskFreeMap := freeMap'\<rparr>)
                  else Inr (False, st))))"



text \<open>
  The constructor \<^verbatim>\<open>FileSystem::FileSystem(format)\<close> with \<open>format = true\<close>, on a disk of
  \<open>NUM_SECTORS\<close> sectors (the constant is declared in \<^verbatim>\<open>machine/disk.hh\<close>, not among the
  sources, and is a parameter here).  \<open>st0\<close> gives what the disk held before; the registries
  start with the free map and the root directory only.
\<close>

definition FileSystem_format :: "nat \<Rightarrow> FSState \<Rightarrow> error + FSState" where
  "FileSystem_format NUM_SECTORS st0 =
     (let freeMap0 = replicate NUM_SECTORS False;
          freeMap1 = Bitmap_Mark (Bitmap_Mark freeMap0 FREE_MAP_SECTOR) DIRECTORY_SECTOR;
          dir = new_Directory NUM_DIR_ENTRIES
      in case Allocate freeMap1 fresh_header (NUM_SECTORS div 8) of
           (ok1, freeMap2, mapH) \<Rightarrow>
             if \<not> ok1 then Inl AssertionFailed
             else
               (case Allocate freeMap2 fresh_header DIRECTORY_FILE_SIZE of
                  (ok2, freeMap3, dirH) \<Rightarrow>
                    if \<not> ok2 then Inl AssertionFailed
                    else
                      (let st1 = st0\<lparr>diskHeaders := (diskHeaders st0)
                                      (FREE_MAP_SECTOR := mapH, DIRECTORY_SECTOR := dirH),
                                    diskFreeMap := freeMap3,
                                    fsSynchList := [FREE_MAP_SECTOR \<mapsto> mapH,
                                                    DIRECTORY_SECTOR \<mapsto> dirH],
                                    fileSynchList := Map.empty,
                                    currentDir := DIRECTORY_SECTOR\<rparr>
                       in Directory_WriteBack st1 DIRECTORY_SECTOR dirH dir)))"

text \<open>A disk before it is formatted, and the disk of 128 sectors just formatted.\<close>

definition blank_disk :: FSState where
  "blank_disk =
     \<lparr>diskFreeMap = [], diskHeaders = (\<lambda>s. fresh_header), diskDirs = (\<lambda>s i. unused_entry),
      fsSynchList = Map.empty, fileSynchList = Map.empty, currentDir = DIRECTORY_SECTOR\<rparr>"

definition map_header :: FileHeader where
  "map_header = fresh_header\<lparr>numBytes := 16, numSectors := 1,
                              dataSectors := (replicate NUM_DIRECT 0)[0 := 2]\<rparr>"

definition root_header :: FileHeader where
  "root_header = fresh_header\<lparr>numBytes := 320, numSectors := 3,
                               dataSectors := (replicate NUM_DIRECT 0)[0 := 3, 1 := 4, 2 := 5]\<rparr>"

definition formatted_disk :: FSState where
  "formatted_disk =
     \<lparr>diskFreeMap = prefix_marked 6 122,
      diskHeaders = (\<lambda>s. fresh_header)(FREE_MAP_SECTOR := map_header, DIRECTORY_SECTOR := root_header),
      diskDirs = (\<lambda>s i. unused_entry),
      fsSynchList = [FREE_MAP_SECTOR \<mapsto> map_header, DIRECTORY_SECTOR \<mapsto> root_header],
      fileSynchList = Map.empty, currentDir = DIRECTORY_SECTOR\<rparr>"


text \<open>The persistent part of a state.\<close>

definition on_disk :: "FSState \<Rightarrow> Bitmap \<times> (nat \<Rightarrow> FileHeader) \<times> (nat \<Rightarrow> nat \<Rightarrow> DirectoryEntry)" where
  "on_disk st = (diskFreeMap st, diskHeaders st, diskDirs st)"

text \<open>
  The formatted disk after \<^verbatim>\<open>Create("/SWAP.0", 250, false)\<close>: the header of the new file is in
  sector 6, its two data sectors are 7 and 8, and the first entry of the root directory names
  it.
\<close>

definition swap_header :: FileHeader where
  "swap_header = fresh_header\<lparr>numBytes := 250, numSectors := 2,
                               dataSectors := (replicate NUM_DIRECT 0)[0 := 7, 1 := 8]\<rparr>"

definition swap_entry :: DirectoryEntry where
  "swap_entry = \<lparr>inUse = True, sector = 6, name = ''SWAP.0'', isDir = False\<rparr>"

definition swap_file_disk :: FSState where
  "swap_file_disk =
     formatted_disk\<lparr>diskFreeMap := prefix_marked 9 119,
                    diskHeaders := (diskHeaders formatted_disk)(6 := swap_header),
                    diskDirs := (diskDirs formatted_disk)
                       (DIRECTORY_SECTOR := (\<lambda>i. if i = 0 then swap_entry else unused_entry))\<rparr>"

text \<open>
  The formatted disk after \<^verbatim>\<open>Create("/SWAP.0", 3840, false)\<close>: the header is in sector 6, the
  29 direct data sectors are 7 to 35, the single-indirect sector is 36, the first row is in
  sector 37 and holds the thirtieth data sector, 38; \<^verbatim>\<open>Allocate\<close> also claims sector 39 for a
  second row, which stays empty.  \<open>big_open_disk n b\<close> is that disk with the file open, its
  record having \<open>n\<close> handles outstanding and the flag \<open>beingRemoved\<close> equal to \<open>b\<close>, and
  \<open>big_removed_disk\<close> the disk after the file was removed.  \<open>big_unmarked_disk\<close> has the
  file open once and flagged, over a free map in which sectors 7 to 39 are clear although
  the header holds them.
\<close>

definition big_swap_header :: FileHeader where
  "big_swap_header =
     fresh_header\<lparr>numBytes := 3840, numSectors := 30, indirSector := 36,
                  dataSectors := [7..<36],
                  firstIndir := 37 # 39 # replicate 30 (- 1),
                  secondIndir := (38 # replicate 31 (- 1)) # replicate 31 (replicate 32 (- 1))\<rparr>"

definition big_swap_disk :: FSState where
  "big_swap_disk =
     swap_file_disk\<lparr>diskFreeMap := prefix_marked 40 88,
                    diskHeaders := (diskHeaders formatted_disk)(6 := big_swap_header)\<rparr>"













text \<open>
  A root directory that is full.  The \<open>k\<close>-th file is named by \<open>k + 1\<close> letters \<^verbatim>\<open>a\<close>, is empty
  and has its header in sector \<open>6 + k\<close>; \<open>root_with k\<close> is the formatted disk with the first
  \<open>k\<close> of these files, and \<open>root_table k\<close> the table of its root directory.
\<close>

definition file_name :: "nat \<Rightarrow> string" where
  "file_name k = replicate (Suc k) CHR ''a''"

definition file_entry :: "nat \<Rightarrow> DirectoryEntry" where
  "file_entry k = \<lparr>inUse = True, sector = 6 + k, name = file_name k, isDir = False\<rparr>"

definition root_with :: "nat \<Rightarrow> FSState" where
  "root_with k =
     formatted_disk\<lparr>diskFreeMap := prefix_marked (6 + k) (122 - k),
                    diskDirs := (diskDirs formatted_disk)
                       (DIRECTORY_SECTOR := (\<lambda>i. if i < k then file_entry i else unused_entry))\<rparr>"

definition root_table :: "nat \<Rightarrow> RawDirectory" where
  "root_table k = map file_entry [0..<k] @ replicate (10 - k) unused_entry"

text \<open>A sequence of calls \<^verbatim>\<open>Create(p, 0, false)\<close>, one for each path, stopping at the first failure.\<close>

fun Create_files :: "FSState \<Rightarrow> string list \<Rightarrow> error + bool \<times> FSState" where
  "Create_files st [] = Inr (True, st)"
| "Create_files st (p # ps) =
     (case Create st p 0 False of
        Inl e \<Rightarrow> Inl e
      | Inr (ok, st') \<Rightarrow> if ok then Create_files st' ps else Inr (False, st'))"

text \<open>
  The header of the root directory after \<^verbatim>\<open>ExpandDirectory\<close> grew it by five entries into
  sector 17, and the state in which that header is cached in the registry and stored in the
  header sector of the root directory, all else being as in \<open>root_with 10\<close>.
\<close>

definition grown_root_header :: FileHeader where
  "grown_root_header = root_header\<lparr>numBytes := 480, numSectors := 4,
                                    dataSectors := (dataSectors root_header)[3 := 17]\<rparr>"

definition failed_create_disk :: FSState where
  "failed_create_disk =
     (root_with 10)\<lparr>fsSynchList := (fsSynchList (root_with 10))(DIRECTORY_SECTOR \<mapsto> grown_root_header),
                     diskHeaders := (diskHeaders (root_with 10))(DIRECTORY_SECTOR := grown_root_header)\<rparr>"

section \<open>Values of the constants\<close>

lemma NUM_DIRECT_val: "NUM_DIRECT = 29"
  by (simp add: NUM_DIRECT_def SECTOR_SIZE_def)

lemma NUM_INDIRECT_val: "NUM_INDIRECT = 32"
  by (simp add: NUM_INDIRECT_def SECTOR_SIZE_def)

lemma MAX_DIRECT_SIZE_val: "MAX_DIRECT_SIZE = 3712"
  by (simp add: MAX_DIRECT_SIZE_def NUM_DIRECT_val SECTOR_SIZE_def)

section \<open>The console: where \<^verbatim>\<open>ReadBuffer\<close> stores the terminator\<close>

lemma line_len_0 [simp]: "line_len 0 inp = 0"
  by (simp add: line_len_def)

lemma line_len_Nil [simp]: "line_len n [] = 0"
  by (simp add: line_len_def)

lemma line_len_Cons:
  "line_len (Suc n) (c # cs) = (if c = newline then 0 else Suc (line_len n cs))"
  by (simp add: line_len_def)

lemma line_len_le: "line_len n inp \<le> n"
  unfolding line_len_def
  by (rule order_trans[OF length_takeWhile_le]) simp

lemma line_len_less_newline:
  assumes "line_len n inp < n" and "line_len n inp < length inp"
  shows "inp ! line_len n inp = newline"
proof -
  let ?L = "length (takeWhile (\<lambda>c. c \<noteq> newline) (take n inp))"
  have "?L < length (take n inp)" using assms by (simp add: line_len_def)
  then have "\<not> (take n inp ! ?L \<noteq> newline)" by (rule nth_length_takeWhile)
  moreover have "take n inp ! ?L = inp ! ?L" using assms by (simp add: line_len_def)
  ultimately show ?thesis by (simp add: line_len_def)
qed

lemma line_len_no_newline:
  assumes "newline \<notin> set (take n inp)"
  shows "line_len n inp = min n (length inp)"
proof -
  have e: "takeWhile (\<lambda>c. c \<noteq> newline) (take n inp) = take n inp"
    using assms by (auto simp add: takeWhile_eq_all_conv)
  show ?thesis unfolding line_len_def e by (simp add: min.commute)
qed

lemma ReadBuffer_loop_result:
  "i \<le> n \<Longrightarrow> n - i \<le> length inp \<or> line_len (n - i) inp < length inp \<Longrightarrow>
   \<exists>buf' rest. ReadBuffer_loop i n buf inp = Some (i + line_len (n - i) inp, buf', rest)
     \<and> (\<forall>j. buf' j = (if i \<le> j \<and> j < i + min (n - i) (Suc (line_len (n - i) inp))
                        then inp ! (j - i) else buf j))"
proof (induction inp arbitrary: i buf)
  case Nil
  then have "i = n" by simp
  then show ?case by (auto simp add: ReadBuffer_loop.simps[of n n])
next
  case (Cons ch rest0)
  show ?case
  proof (cases "i < n")
    case False
    with Cons.prems have "i = n" by simp
    then show ?thesis by (auto simp add: ReadBuffer_loop.simps[of n n])
  next
    case True
    then obtain d where d: "n - i = Suc d" by (cases "n - i") auto
    then have d': "n - Suc i = d" by simp
    show ?thesis
    proof (cases "ch = newline")
      case T: True
      have "ReadBuffer_loop i n buf (ch # rest0) = Some (i, buf(i := ch), rest0)"
        using True T by (simp add: ReadBuffer_loop.simps[of i n buf])
      moreover have "line_len (n - i) (ch # rest0) = 0"
        using T d by (simp add: line_len_Cons)
      ultimately show ?thesis using d by auto
    next
      case F: False
      have step: "ReadBuffer_loop i n buf (ch # rest0)
                  = ReadBuffer_loop (Suc i) n (buf(i := ch)) rest0"
        using True F by (simp add: ReadBuffer_loop.simps[of i n buf])
      have ll: "line_len (n - i) (ch # rest0) = Suc (line_len d rest0)"
        using F d by (simp add: line_len_Cons)
      have pre: "n - Suc i \<le> length rest0 \<or> line_len (n - Suc i) rest0 < length rest0"
        using Cons.prems(2) d d' ll by auto
      have "Suc i \<le> n" using True by simp
      from Cons.IH[OF this pre, of "buf(i := ch)"]
      obtain buf' rest where r0: "ReadBuffer_loop (Suc i) n (buf(i := ch)) rest0
            = Some (Suc i + line_len (n - Suc i) rest0, buf', rest)"
        and b0: "\<forall>j. buf' j = (if Suc i \<le> j \<and> j < Suc i + min (n - Suc i) (Suc (line_len (n - Suc i) rest0))
                        then rest0 ! (j - Suc i) else (buf(i := ch)) j)"
        by blast
      have r: "ReadBuffer_loop (Suc i) n (buf(i := ch)) rest0
            = Some (Suc i + line_len d rest0, buf', rest)"
        using r0 d' by simp
      have b: "\<forall>j. buf' j = (if Suc i \<le> j \<and> j < Suc i + min d (Suc (line_len d rest0))
                        then rest0 ! (j - Suc i) else (buf(i := ch)) j)"
        using b0 d' by simp
      have "\<forall>j. buf' j = (if i \<le> j \<and> j < i + min (n - i) (Suc (line_len (n - i) (ch # rest0)))
                        then (ch # rest0) ! (j - i) else buf j)"
      proof
        fix j
        show "buf' j = (if i \<le> j \<and> j < i + min (n - i) (Suc (line_len (n - i) (ch # rest0)))
                        then (ch # rest0) ! (j - i) else buf j)"
        proof (cases "j = i")
          case True then show ?thesis using b d ll by simp
        next
          case False
          show ?thesis
          proof (cases "j < i")
            case True
            then show ?thesis using b by simp
          next
            case F3: False
            with False have ji: "Suc i \<le> j" by simp
            then have "j - i = Suc (j - Suc i)" by simp
            then have nth: "(ch # rest0) ! (j - i) = rest0 ! (j - Suc i)" by simp
            have "buf' j = (if j < Suc i + min d (Suc (line_len d rest0))
                            then rest0 ! (j - Suc i) else buf j)"
              using b ji False by simp
            then show ?thesis using ji nth d ll by simp
          qed
        qed
      qed
      with r step ll show ?thesis by simp
    qed
  qed
qed

lemma takeWhile_stops: "\<exists>x \<in> set xs. \<not> P x \<Longrightarrow> length (takeWhile P xs) < length xs"
  by (induction xs) auto

lemma line_len_newline_less:
  assumes "newline \<in> set (take n inp)"
  shows "line_len n inp < length inp"
proof -
  have "\<exists>c \<in> set (take n inp). \<not> c \<noteq> newline" using assms by simp
  then have "length (takeWhile (\<lambda>c. c \<noteq> newline) (take n inp)) < length (take n inp)"
    by (rule takeWhile_stops)
  then show ?thesis by (simp add: line_len_def)
qed

lemma u32_id: "n < 2 ^ 32 \<Longrightarrow> u32 n = n"
  by (simp add: u32_def)

text \<open>
  C9.  \<^verbatim>\<open>ReadBuffer(buffer, size)\<close> returns whenever the console delivers a newline among
  the first \<open>size\<close> characters or at least \<open>size\<close> characters.  It returns the index \<open>i\<close> at
  which reading stopped (the number of characters before the first newline, at most \<open>size\<close>)
  and stores the terminator at index \<open>i + 1\<close>: when a newline was read at index \<open>i\<close>,
  \<open>buffer[i]\<close> still holds the newline; when there is no newline among the first \<open>size\<close>
  characters, \<open>i = size\<close> and the terminator is stored at \<open>buffer[size + 1]\<close>, beyond index
  \<open>size\<close>.
\<close>

theorem ReadBuffer_terminator_index:
  assumes size_ok: "size' + 1 < 2 ^ 32"
      and input: "size' \<le> length inp \<or> newline \<in> set (take size' inp)"
  shows "\<exists>buffer' rest.
           ReadBuffer buffer size' inp = Some (line_len size' inp, buffer', rest)
         \<and> line_len size' inp \<le> size'
         \<and> buffer' (line_len size' inp + 1) = NUL
         \<and> (line_len size' inp < size' \<longrightarrow>
               inp ! line_len size' inp = newline \<and> buffer' (line_len size' inp) = newline)
         \<and> (newline \<notin> set (take size' inp) \<longrightarrow>
               line_len size' inp = size' \<and> buffer' (size' + 1) = NUL)"
proof -
  let ?i = "line_len size' inp"
  have le: "?i \<le> size'" by (rule line_len_le)
  have pre: "size' - 0 \<le> length inp \<or> line_len (size' - 0) inp < length inp"
    using input line_len_newline_less by auto
  from ReadBuffer_loop_result[OF _ pre, of buffer]
  obtain buf1 rest where loop: "ReadBuffer_loop 0 size' buffer inp = Some (?i, buf1, rest)"
    and stored: "\<forall>j. buf1 j = (if j < min size' (Suc ?i) then inp ! j else buffer j)"
    by auto
  have wrap: "u32 (?i + 1) = ?i + 1"
    using le size_ok by (intro u32_id) simp
  let ?b = "buf1(?i + 1 := NUL)"
  have res: "ReadBuffer buffer size' inp = Some (?i, ?b, rest)"
    using loop wrap by (simp add: ReadBuffer_def)
  have nul: "?b (?i + 1) = NUL" by simp
  have nl: "?i < size' \<longrightarrow> inp ! ?i = newline \<and> ?b ?i = newline"
  proof
    assume lt: "?i < size'"
    have "?i < length inp"
    proof (cases "newline \<in> set (take size' inp)")
      case True then show ?thesis by (rule line_len_newline_less)
    next
      case False
      with input have "size' \<le> length inp" by simp
      with lt show ?thesis by simp
    qed
    with lt have a: "inp ! ?i = newline" by (rule line_len_less_newline)
    have "buf1 ?i = inp ! ?i" using stored lt by simp
    with a show "inp ! ?i = newline \<and> ?b ?i = newline" by simp
  qed
  have nonl: "newline \<notin> set (take size' inp) \<longrightarrow> ?i = size' \<and> ?b (size' + 1) = NUL"
  proof
    assume no: "newline \<notin> set (take size' inp)"
    with input have "size' \<le> length inp" by simp
    with no have "?i = size'" by (simp add: line_len_no_newline)
    then show "?i = size' \<and> ?b (size' + 1) = NUL" by simp
  qed
  from res le nul nl nonl show ?thesis by blast
qed

text \<open>
  A call with \<open>size = 2\<close> on the input \<open>ab\<close>: two characters are stored and the terminator
  lands at index 3.
\<close>

theorem ReadBuffer_terminator_index_witness:
  "\<exists>buffer' rest. ReadBuffer (\<lambda>_. CHR ''x'') 2 ''ab'' = Some (2, buffer', rest)
      \<and> buffer' 3 = NUL"
proof -
  have nl: "newline \<notin> set (take 2 ''ab'')" by (simp add: newline_def)
  have "(2::nat) + 1 < 2 ^ 32" and "2 \<le> length ''ab'' \<or> newline \<in> set (take 2 ''ab'')"
    by simp_all
  from ReadBuffer_terminator_index[OF this, of "\<lambda>_. CHR ''x''"] nl
  show ?thesis by auto
qed

section \<open>Growing a file by nothing\<close>

text \<open>
  C10.  \<^verbatim>\<open>FileHeader::Expand\<close> stops the kernel on its assertion exactly when \<open>newBytes\<close> is
  zero, and \<^verbatim>\<open>FileSystem::ExpandFile\<close> exactly when \<open>numBytes\<close> is zero: a growth by
  nothing is not answered with \<open>false\<close>.
\<close>

theorem Expand_zero_asserts:
  "(Expand freeMap h newBytes = Inl AssertionFailed) = (newBytes = 0)
   \<and> (ExpandFile st sector' numBytes' = Inl AssertionFailed) = (numBytes' = 0)"
proof
  show "(Expand freeMap h newBytes = Inl AssertionFailed) = (newBytes = 0)"
    by (simp add: Expand_def Let_def split: prod.split)
next
  show "(ExpandFile st sector' numBytes' = Inl AssertionFailed) = (numBytes' = 0)"
    by (simp add: ExpandFile_def Expand_def Let_def split: prod.split option.split)
qed

section \<open>Readers and writers of one file\<close>

lemma usub_pos: "0 < n \<Longrightarrow> usub n 1 = n - 1"
  by (simp add: usub_def)

lemma rw_step_invariant:
  assumes "rw_invariant fs" and "rw_step fs a = Some fs'" and "a \<noteq> ReaderLeaves \<or> reading fs > 0"
  shows "rw_invariant fs'"
proof (cases a)
  case ReaderEnters
  with assms show ?thesis by (auto simp: rw_invariant_def split: if_splits)
next
  case ReaderLeaves
  with assms have "reading fs > 0" by simp
  with assms ReaderLeaves show ?thesis by (auto simp: rw_invariant_def usub_pos)
next
  case WriterArrives
  with assms show ?thesis by (auto simp: rw_invariant_def)
next
  case WriterEnters
  with assms show ?thesis by (auto simp: rw_invariant_def split: if_splits)
next
  case WriterLeaves
  with assms show ?thesis by (auto simp: rw_invariant_def)
qed

lemma rw_run_invariant:
  "rw_invariant fs0 \<Longrightarrow> rw_paired fs0 acts \<Longrightarrow> rw_run fs0 acts = Some fs \<Longrightarrow> rw_invariant fs"
proof (induction acts arbitrary: fs0)
  case Nil
  then show ?case by simp
next
  case (Cons a acts)
  from Cons.prems(3) obtain fs1 where s: "rw_step fs0 a = Some fs1" and r: "rw_run fs1 acts = Some fs"
    by (auto split: option.splits)
  from Cons.prems(2) s have p: "a \<noteq> ReaderLeaves \<or> reading fs0 > 0" and q: "rw_paired fs1 acts"
    by auto
  from rw_step_invariant[OF Cons.prems(1) s p] have "rw_invariant fs1" .
  from Cons.IH[OF this q r] show ?case .
qed

lemma new_FileSynch_invariant: "rw_invariant (new_FileSynch path h)"
  by (simp add: rw_invariant_def new_FileSynch_def)

lemma reading_increase:
  assumes "rw_step fs a = Some fs'" and "a \<noteq> ReaderLeaves \<or> reading fs > 0"
    and "reading fs' > reading fs"
  shows "a = ReaderEnters \<and> \<not> writing fs \<and> waitingToWrite fs = 0"
  using assms by (cases a) (auto simp: usub_def split: if_splits)

text \<open>
  C5, as amended.  From a freshly constructed record, every state reached by a sequence of
  the reader/writer actions in which \<^verbatim>\<open>FinishReading\<close> is called only while a reader is
  inside (\<open>reading > 0\<close>) satisfies: either \<open>writing\<close> holds and \<open>reading = 0\<close>, or
  \<open>writing\<close> does not hold.  In every such state a reader that arrives while \<open>writing\<close>
  holds or \<open>waitingToWrite > 0\<close> waits, and the only action that increases \<open>reading\<close>
  is a reader entering with both false.
\<close>

theorem rw_invariant_paired:
  assumes "rw_paired (new_FileSynch path h) acts"
      and "rw_run (new_FileSynch path h) acts = Some fs"
  shows "rw_invariant fs
       \<and> (writing fs \<or> waitingToWrite fs > 0 \<longrightarrow> rw_step fs ReaderEnters = None)
       \<and> (\<forall>a fs'. rw_step fs a = Some fs' \<and> (a \<noteq> ReaderLeaves \<or> reading fs > 0)
              \<and> reading fs' > reading fs
            \<longrightarrow> a = ReaderEnters \<and> \<not> writing fs \<and> waitingToWrite fs = 0)"
proof (intro conjI)
  show "rw_invariant fs"
    using rw_run_invariant[OF new_FileSynch_invariant assms] .
  show "writing fs \<or> waitingToWrite fs > 0 \<longrightarrow> rw_step fs ReaderEnters = None"
    by simp
  show "\<forall>a fs'. rw_step fs a = Some fs' \<and> (a \<noteq> ReaderLeaves \<or> reading fs > 0)
              \<and> reading fs' > reading fs
            \<longrightarrow> a = ReaderEnters \<and> \<not> writing fs \<and> waitingToWrite fs = 0"
    using reading_increase by blast
qed

text \<open>
  A reader enters and leaves, then a writer arrives and enters: the state reached has
  \<open>writing\<close> set and no reader, and a reader arriving then waits.
\<close>

theorem rw_invariant_paired_witness:
  "rw_paired (new_FileSynch ''/f'' fresh_header) [ReaderEnters, ReaderLeaves, WriterArrives, WriterEnters]
   \<and> rw_run (new_FileSynch ''/f'' fresh_header) [ReaderEnters, ReaderLeaves, WriterArrives, WriterEnters]
       = Some ((new_FileSynch ''/f'' fresh_header)\<lparr>writing := True\<rparr>)
   \<and> rw_invariant ((new_FileSynch ''/f'' fresh_header)\<lparr>writing := True\<rparr>)
   \<and> rw_step ((new_FileSynch ''/f'' fresh_header)\<lparr>writing := True\<rparr>) ReaderEnters = None"
proof -
  let ?acts = "[ReaderEnters, ReaderLeaves, WriterArrives, WriterEnters]"
  let ?init = "new_FileSynch ''/f'' fresh_header"
  have p: "rw_paired ?init ?acts"
    by (simp add: new_FileSynch_def u32_def usub_def)
  have r: "rw_run ?init ?acts = Some (?init\<lparr>writing := True\<rparr>)"
    by (simp add: new_FileSynch_def u32_def usub_def)
  from rw_invariant_paired[OF p r] p r show ?thesis by simp
qed

text \<open>
  C5 as stated fails: nothing in \<^verbatim>\<open>FinishReading\<close> checks that a reader is inside.  A writer
  enters, then \<^verbatim>\<open>FinishReading\<close> is called: the unsigned \<open>reading\<close> wraps from 0 to
  \<open>2^32 - 1\<close> while \<open>writing\<close> holds.
\<close>

theorem rw_unpaired_FinishReading_counterexample:
  "map_option rw_invariant
     (rw_run (new_FileSynch ''/f'' fresh_header) [WriterArrives, WriterEnters, ReaderLeaves])
   = Some False"
  by (simp add: new_FileSynch_def rw_invariant_def u32_def usub_def)

section \<open>Second-chance replacement\<close>

lemma all_frames_residentD:
  "all_frames_resident cm m \<Longrightarrow> f < NUM_PHYS_PAGES cm \<Longrightarrow> \<exists>e. frame_entry cm m f = Some e"
  by (auto simp: all_frames_resident_def list_all_iff)

lemma all_frames_resident_victim [simp]:
  "all_frames_resident (cm\<lparr>victim := x\<rparr>) m = all_frames_resident cm m"
  by (simp add: all_frames_resident_def NUM_PHYS_PAGES_def)

lemma used_frames_victim [simp]:
  "used_frames (cm\<lparr>victim := x\<rparr>) m = used_frames cm m"
  by (simp add: used_frames_def NUM_PHYS_PAGES_def)

lemma resident_in_victim [simp]:
  "resident_in (cm\<lparr>victim := x\<rparr>) fs a vpn = resident_in cm fs a vpn"
  by (simp add: resident_in_def)

lemma NUM_PHYS_PAGES_victim [simp]:
  "NUM_PHYS_PAGES (cm\<lparr>victim := x\<rparr>) = NUM_PHYS_PAGES cm"
  by (simp add: NUM_PHYS_PAGES_def)

lemma all_frames_resident_set_entry:
  assumes "all_frames_resident cm m" and "frame_entry cm m v = Some e0"
  shows "all_frames_resident cm (set_entry m (addrSpaces cm ! v) (virtualPages cm ! v) e)"
proof -
  have "frame_entry cm (set_entry m (addrSpaces cm ! v) (virtualPages cm ! v) e) f \<noteq> None"
    if "frame_entry cm m f \<noteq> None" for f
  proof -
    have lt: "f < length (addrSpaces cm) \<and> f < length (virtualPages cm)"
      using that by (simp add: frame_entry_def split: if_splits)
    show ?thesis
      using frame_entry_set_entry[OF assms(2), of e f] lt that by (simp split: if_splits)
  qed
  then show ?thesis using assms(1)
    by (simp add: all_frames_resident_def list_all_iff)
qed

lemma set_entry_others [simp]:
  "swapFiles (set_entry m a vpn e) = swapFiles m"
  "mainMemory (set_entry m a vpn e) = mainMemory m"
  "tlb (set_entry m a vpn e) = tlb m"
  by (simp_all add: set_entry_def split: option.splits)

lemma map_upt_shift:
  "map f [0..<Suc n] = f 0 # map (\<lambda>k. f (Suc k)) [0..<n]"
  by (induction n) simp_all

lemma UpdateVictim_loop_spec:
  "all_frames_resident cm m \<Longrightarrow> victim cm < NUM_PHYS_PAGES cm \<Longrightarrow>
   \<exists>m' run.
      UpdateVictim_loop cm m passed
        = Some (cm\<lparr>victim := (victim cm + length run) mod NUM_PHYS_PAGES cm\<rparr>, m', passed @ run)
    \<and> length run \<le> card (used_frames cm m)
    \<and> run = map (\<lambda>k. (victim cm + k) mod NUM_PHYS_PAGES cm) [0..<length run]
    \<and> set run \<subseteq> used_frames cm m
    \<and> (\<exists>e. frame_entry cm m' ((victim cm + length run) mod NUM_PHYS_PAGES cm) = Some e \<and> \<not> use e)
    \<and> all_frames_resident cm m'
    \<and> swapFiles m' = swapFiles m \<and> mainMemory m' = mainMemory m \<and> tlb m' = tlb m
    \<and> (\<forall>a vpn. GetPage m' a vpn =
           (if resident_in cm run a vpn then map_option clear_use (GetPage m a vpn)
            else GetPage m a vpn))"
proof (induction cm m passed rule: UpdateVictim_loop.induct)
  case (1 cm m passed)
  let ?N = "NUM_PHYS_PAGES cm"
  let ?v = "victim cm"
  from all_frames_residentD[OF "1.prems"] obtain entry
    where en: "frame_entry cm m ?v = Some entry" by blast
  show ?case
  proof (cases "use entry")
    case False
    have "UpdateVictim_loop cm m passed = Some (cm, m, passed)"
      using en False by (simp add: UpdateVictim_loop.simps[of cm m passed])
    moreover have vm: "(?v + 0) mod ?N = ?v" using "1.prems"(2) by simp
    moreover have "cm\<lparr>victim := ?v\<rparr> = cm" by simp
    ultimately show ?thesis using en False "1.prems"(1)
      by (intro exI[of _ m] exI[of _ "[]"]) (simp add: resident_in_def)
  next
    case True
    let ?cm1 = "cm\<lparr>victim := (?v + 1) mod ?N\<rparr>"
    let ?a = "addrSpaces cm ! ?v" and ?p = "virtualPages cm ! ?v"
    let ?m1 = "set_entry m ?a ?p (entry\<lparr>use := False\<rparr>)"
    have step: "UpdateVictim_loop cm m passed = UpdateVictim_loop ?cm1 ?m1 (passed @ [?v])"
      using en True by (simp add: UpdateVictim_loop.simps[of cm m passed])
    have res1: "all_frames_resident ?cm1 ?m1"
      using all_frames_resident_set_entry[OF "1.prems"(1) en] by simp
    have Npos: "0 < ?N" using "1.prems"(2) by simp
    then have v1: "victim ?cm1 < NUM_PHYS_PAGES ?cm1" by simp
    from "1.IH"[OF en True res1 v1]
    obtain m' run1 where
      r: "UpdateVictim_loop ?cm1 ?m1 (passed @ [?v])
            = Some (?cm1\<lparr>victim := (victim ?cm1 + length run1) mod NUM_PHYS_PAGES ?cm1\<rparr>, m',
                    (passed @ [?v]) @ run1)"
      and len: "length run1 \<le> card (used_frames ?cm1 ?m1)"
      and run1: "run1 = map (\<lambda>k. (victim ?cm1 + k) mod NUM_PHYS_PAGES ?cm1) [0..<length run1]"
      and sub: "set run1 \<subseteq> used_frames ?cm1 ?m1"
      and stop: "\<exists>e. frame_entry ?cm1 m' ((victim ?cm1 + length run1) mod NUM_PHYS_PAGES ?cm1) = Some e \<and> \<not> use e"
      and res': "all_frames_resident ?cm1 m'"
      and same: "swapFiles m' = swapFiles ?m1 \<and> mainMemory m' = mainMemory ?m1 \<and> tlb m' = tlb ?m1"
      and pages: "\<forall>a vpn. GetPage m' a vpn =
           (if resident_in ?cm1 run1 a vpn then map_option clear_use (GetPage ?m1 a vpn)
            else GetPage ?m1 a vpn)"
      by blast
    let ?run = "?v # run1"
    have modeq: "((?v + 1) mod ?N + length run1) mod ?N = (?v + length ?run) mod ?N"
      by (simp add: mod_add_left_eq)
    have a: "UpdateVictim_loop cm m passed
        = Some (cm\<lparr>victim := (?v + length ?run) mod ?N\<rparr>, m', passed @ ?run)"
      using step r modeq by simp
    have dec: "card (used_frames ?cm1 ?m1) < card (used_frames cm m)"
      using used_frames_decrease[OF en True] .
    have b: "length ?run \<le> card (used_frames cm m)" using len dec by simp
    have c: "?run = map (\<lambda>k. (?v + k) mod ?N) [0..<length ?run]"
    proof -
      have "run1 = map (\<lambda>k. (?v + Suc k) mod ?N) [0..<length run1]"
        using run1 by (simp add: mod_add_left_eq)
      moreover have "?v = (?v + 0) mod ?N" using "1.prems"(2) by simp
      ultimately show ?thesis by (simp add: map_upt_shift del: upt_Suc)
    qed
    have vin: "?v \<in> used_frames cm m"
      using en True "1.prems"(2) by (simp add: used_frames_def)
    have sub1: "used_frames ?cm1 ?m1 \<subseteq> used_frames cm m"
      by (auto simp: used_frames_def NUM_PHYS_PAGES_def frame_entry_set_entry [OF en]
             split: if_splits option.splits)
    have d: "set ?run \<subseteq> used_frames cm m" using vin sub sub1 by auto
    have e: "\<exists>e. frame_entry cm m' ((?v + length ?run) mod ?N) = Some e \<and> \<not> use e"
      using stop modeq by simp
    have f: "all_frames_resident cm m'" using res' by simp
    have g1: "swapFiles m' = swapFiles m" and g2: "mainMemory m' = mainMemory m"
      and g3: "tlb m' = tlb m"
      using same by simp_all
    have gp: "GetPage m ?a ?p = Some entry"
      using en by (simp add: frame_entry_def split: if_splits)
    have h: "\<forall>a vpn. GetPage m' a vpn =
           (if resident_in cm ?run a vpn then map_option clear_use (GetPage m a vpn)
            else GetPage m a vpn)"
    proof (intro allI)
      fix a vpn
      show "GetPage m' a vpn =
           (if resident_in cm ?run a vpn then map_option clear_use (GetPage m a vpn)
            else GetPage m a vpn)"
      proof (cases "a = ?a \<and> vpn = ?p")
        case T: True
        then have "GetPage ?m1 a vpn = Some (clear_use entry)"
          using gp by (simp add: GetPage_set_entry clear_use_def)
        moreover have "map_option clear_use (Some (clear_use entry)) = Some (clear_use entry)"
          by (simp add: clear_use_def)
        ultimately have "GetPage m' a vpn = Some (clear_use entry)"
          using pages by (simp split: if_splits)
        then show ?thesis using T gp by (simp add: resident_in_def)
      next
        case F: False
        then have "GetPage ?m1 a vpn = GetPage m a vpn"
          using gp by (auto simp add: GetPage_set_entry)
        moreover have "resident_in cm ?run a vpn = resident_in cm run1 a vpn"
          using F by (auto simp: resident_in_def)
        ultimately show ?thesis using pages by simp
      qed
    qed
    show ?thesis
      apply (rule exI[of _ m'])
      apply (rule exI[of _ "?run"])
      apply (intro conjI)
               apply (rule a)
              apply (rule b)
             apply (rule c)
            apply (rule d)
           apply (rule e)
          apply (rule f)
         apply (rule g1)
        apply (rule g2)
       apply (rule g3)
      apply (rule h)
      done
  qed
qed

lemma card_used_frames_le: "card (used_frames cm m) \<le> NUM_PHYS_PAGES cm"
proof -
  have "used_frames cm m \<subseteq> {0..<NUM_PHYS_PAGES cm}" by (auto simp: used_frames_def)
  then have "card (used_frames cm m) \<le> card {0..<NUM_PHYS_PAGES cm}"
    by (intro card_mono) simp_all
  then show ?thesis by simp
qed

lemma SaveToSwap_returns:
  "GetPage m a vpn = Some e \<Longrightarrow> \<exists>m'. SaveToSwap m a vpn = Some m'"
  by (cases "dirty e") (simp_all add: SaveToSwap_def Let_def)

text \<open>
  C8.  In every state in which each of the \<open>NUM_PHYS_PAGES\<close> frames holds a page of a live
  address space, \<^verbatim>\<open>Coremap::FreePage\<close> terminates.  The cursor advances one frame at a time
  from \<open>victim + 1\<close>; the frames it passes (\<open>passed\<close>) all had the \<open>use\<close> bit of their page
  set, and clearing those bits is the only change to the page tables; it stops at the next
  frame, whose page has the bit clear.  At most \<open>NUM_PHYS_PAGES\<close> frames are passed, so
  the cursor advances at most \<open>2 * NUM_PHYS_PAGES\<close> times.  The frame where it stops is
  cleared in the frame bitmap and \<^verbatim>\<open>SaveToSwap\<close> runs on its owner with its page.
\<close>

theorem FreePage_second_chance:
  assumes frames: "0 < NUM_PHYS_PAGES cm" and resident: "all_frames_resident cm m"
  shows "\<exists>stop m1 m' passed.
      UpdateVictim cm m = Some (cm\<lparr>victim := stop\<rparr>, m1, passed)
    \<and> FreePage cm m =
        Some (cm\<lparr>victim := stop, physPagesMap := Bitmap_Clear (physPagesMap cm) stop\<rparr>, m', passed)
    \<and> stop = (victim cm + 1 + length passed) mod NUM_PHYS_PAGES cm
    \<and> passed = map (\<lambda>k. (victim cm + 1 + k) mod NUM_PHYS_PAGES cm) [0..<length passed]
    \<and> length passed \<le> NUM_PHYS_PAGES cm
    \<and> 1 + length passed \<le> 2 * NUM_PHYS_PAGES cm
    \<and> set passed \<subseteq> used_frames cm m
    \<and> (\<forall>a vpn. GetPage m1 a vpn =
           (if resident_in cm passed a vpn then map_option clear_use (GetPage m a vpn)
            else GetPage m a vpn))
    \<and> (\<exists>e. frame_entry cm m1 stop = Some e \<and> \<not> use e)
    \<and> SaveToSwap m1 (addrSpaces cm ! stop) (virtualPages cm ! stop) = Some m'"
proof -
  let ?N = "NUM_PHYS_PAGES cm"
  let ?cm0 = "cm\<lparr>victim := (victim cm + 1) mod ?N\<rparr>"
  have r0: "all_frames_resident ?cm0 m" using resident by simp
  have v0: "victim ?cm0 < NUM_PHYS_PAGES ?cm0" using frames by simp
  from UpdateVictim_loop_spec[OF r0 v0, of "[]"]
  obtain m1 passed where
    loop: "UpdateVictim_loop ?cm0 m []
        = Some (?cm0\<lparr>victim := (victim ?cm0 + length passed) mod NUM_PHYS_PAGES ?cm0\<rparr>, m1,
                [] @ passed)"
    and len: "length passed \<le> card (used_frames ?cm0 m)"
    and run: "passed = map (\<lambda>k. (victim ?cm0 + k) mod NUM_PHYS_PAGES ?cm0) [0..<length passed]"
    and sub: "set passed \<subseteq> used_frames ?cm0 m"
    and stop: "\<exists>e. frame_entry ?cm0 m1 ((victim ?cm0 + length passed) mod NUM_PHYS_PAGES ?cm0)
                    = Some e \<and> \<not> use e"
    and pages: "\<forall>a vpn. GetPage m1 a vpn =
           (if resident_in ?cm0 passed a vpn then map_option clear_use (GetPage m a vpn)
            else GetPage m a vpn)"
    by blast
  let ?stop = "(victim cm + 1 + length passed) mod ?N"
  have modeq: "(victim ?cm0 + length passed) mod NUM_PHYS_PAGES ?cm0 = ?stop"
    by (simp add: mod_add_left_eq)
  have uv: "UpdateVictim cm m = Some (cm\<lparr>victim := ?stop\<rparr>, m1, passed)"
    using loop modeq frames by (simp add: UpdateVictim_def)
  from stop modeq obtain e where e: "frame_entry cm m1 ?stop = Some e" and ne: "\<not> use e"
    by auto
  have slt: "?stop < ?N" using frames by simp
  have gp: "GetPage m1 (addrSpaces cm ! ?stop) (virtualPages cm ! ?stop) = Some e"
    using e by (simp add: frame_entry_def split: if_splits)
  then obtain m' where sw: "SaveToSwap m1 (addrSpaces cm ! ?stop) (virtualPages cm ! ?stop) = Some m'"
    using SaveToSwap_returns by blast
  have fp: "FreePage cm m =
        Some (cm\<lparr>victim := ?stop, physPagesMap := Bitmap_Clear (physPagesMap cm) ?stop\<rparr>, m', passed)"
    using uv sw by (simp add: FreePage_def Let_def)
  have run': "passed = map (\<lambda>k. (victim cm + 1 + k) mod ?N) [0..<length passed]"
    using run by (simp add: mod_add_left_eq)
  have len': "length passed \<le> ?N"
    using len card_used_frames_le[of ?cm0 m] by simp
  have two: "1 + length passed \<le> 2 * ?N" using len' frames by simp
  have sub': "set passed \<subseteq> used_frames cm m" using sub by simp
  have pages': "\<forall>a vpn. GetPage m1 a vpn =
           (if resident_in cm passed a vpn then map_option clear_use (GetPage m a vpn)
            else GetPage m a vpn)"
    using pages by simp
  have stop': "\<exists>e. frame_entry cm m1 ?stop = Some e \<and> \<not> use e" using e ne by blast
  show ?thesis
    apply (rule exI[of _ ?stop])
    apply (rule exI[of _ m1])
    apply (rule exI[of _ m'])
    apply (rule exI[of _ passed])
    apply (intro conjI)
             apply (rule uv)
            apply (rule fp)
           apply (rule refl)
          apply (rule run')
         apply (rule len')
        apply (rule two)
       apply (rule sub')
      apply (rule pages')
     apply (rule stop')
    apply (rule sw)
    done
qed

lemma example_loop:
  "UpdateVictim_loop (example_coremap\<lparr>victim := 1\<rparr>) example_machine []
   = Some (example_coremap\<lparr>victim := 1\<rparr>,
           example_machine\<lparr>pageTables :=
             [0 \<mapsto> [(example_entry 0 0 False)\<lparr>use := False\<rparr>,
                     (example_entry 1 1 True)\<lparr>use := False\<rparr>,
                     (example_entry 2 (- 1) False)\<lparr>valid := False, use := False\<rparr>]]\<rparr>,
           [1, 0])"
  apply (subst UpdateVictim_loop.simps)
  apply (simp add: example_coremap_def example_machine_def frame_entry_def GetPage_def
        example_entry_def set_entry_def NUM_PHYS_PAGES_def)
  apply (subst UpdateVictim_loop.simps)
  apply (simp add: example_coremap_def example_machine_def frame_entry_def GetPage_def
        example_entry_def set_entry_def NUM_PHYS_PAGES_def)
  apply (subst UpdateVictim_loop.simps)
  apply (simp add: example_coremap_def example_machine_def frame_entry_def GetPage_def
        example_entry_def set_entry_def NUM_PHYS_PAGES_def)
  done

text \<open>
  Two frames with both pages in use: the cursor passes frame 1 and frame 0, stops at frame 1
  again, and the dirty page of that frame reaches the swap file.
\<close>

theorem FreePage_second_chance_witness:
  "0 < NUM_PHYS_PAGES example_coremap \<and> all_frames_resident example_coremap example_machine
   \<and> (\<exists>m'. FreePage example_coremap example_machine
            = Some (example_coremap\<lparr>victim := 1, physPagesMap := [True, False]\<rparr>, m', [1, 0])
          \<and> swapFiles m' 0 1 = Some [11])"
proof -
  let ?m1 = "example_machine\<lparr>pageTables :=
             [0 \<mapsto> [(example_entry 0 0 False)\<lparr>use := False\<rparr>,
                     (example_entry 1 1 True)\<lparr>use := False\<rparr>,
                     (example_entry 2 (- 1) False)\<lparr>valid := False, use := False\<rparr>]]\<rparr>"
  have n: "0 < NUM_PHYS_PAGES example_coremap"
    by (simp add: NUM_PHYS_PAGES_def example_coremap_def)
  have r: "all_frames_resident example_coremap example_machine"
    by (simp add: all_frames_resident_def NUM_PHYS_PAGES_def example_coremap_def
          example_machine_def frame_entry_def GetPage_def upt_rec[of 0] upt_rec[of 1] upt_rec[of 2])
  have uv: "UpdateVictim example_coremap example_machine
            = Some (example_coremap\<lparr>victim := 1\<rparr>, ?m1, [1, 0])"
    using example_loop by (simp add: UpdateVictim_def NUM_PHYS_PAGES_def example_coremap_def)
  from FreePage_second_chance[OF n r] obtain stop m1 m' passed where
    a: "UpdateVictim example_coremap example_machine
          = Some (example_coremap\<lparr>victim := stop\<rparr>, m1, passed)"
    and b: "FreePage example_coremap example_machine =
        Some (example_coremap\<lparr>victim := stop,
                physPagesMap := Bitmap_Clear (physPagesMap example_coremap) stop\<rparr>, m', passed)"
    and c: "SaveToSwap m1 (addrSpaces example_coremap ! stop) (virtualPages example_coremap ! stop)
              = Some m'"
    by blast
  from a uv have s: "stop = 1" and m1: "m1 = ?m1" and p: "passed = [1, 0]"
    by (simp_all add: example_coremap_def)
  have bm: "Bitmap_Clear (physPagesMap example_coremap) 1 = [True, False]"
    by (simp add: Bitmap_Clear_def example_coremap_def)
  have sw: "swapFiles m' 0 1 = Some [11]"
    using c unfolding s m1
    by (auto simp add: SaveToSwap_def GetPage_def example_coremap_def example_machine_def
          example_entry_def Let_def set_entry_def)
  from b s p bm sw n r show ?thesis by simp
qed

section \<open>The bitmap\<close>

lemma first_clear_Some:
  "first_clear bm = Some i \<Longrightarrow> i < length bm \<and> \<not> bm ! i \<and> (\<forall>j < i. bm ! j)"
proof (induction bm arbitrary: i)
  case Nil then show ?case by simp
next
  case (Cons b bs)
  show ?case
  proof (cases b)
    case False with Cons.prems show ?thesis by simp
  next
    case True
    with Cons.prems obtain i' where i: "i = Suc i'" and f: "first_clear bs = Some i'" by auto
    from Cons.IH[OF f] True i show ?thesis by (auto simp: less_Suc_eq_0_disj)
  qed
qed

lemma first_clear_None: "first_clear bm = None \<Longrightarrow> CountClear bm = 0"
  by (induction bm) (auto simp: CountClear_def split: if_splits)

lemma CountClear_mark:
  "i < length bm \<Longrightarrow> \<not> bm ! i \<Longrightarrow> Suc (CountClear (bm[i := True])) = CountClear bm"
proof (induction bm arbitrary: i)
  case Nil then show ?case by simp
next
  case (Cons b bs)
  then show ?case by (cases i) (auto simp: CountClear_def)
qed

lemma Bitmap_Find_clear:
  assumes "0 < CountClear bm"
  shows "\<exists>s. Bitmap_Find bm = (int s, bm[s := True]) \<and> s < length bm \<and> \<not> bm ! s
           \<and> Suc (CountClear (bm[s := True])) = CountClear bm"
proof (cases "first_clear bm")
  case None
  with first_clear_None assms show ?thesis by fastforce
next
  case (Some s)
  from first_clear_Some[OF Some] have "s < length bm" "\<not> bm ! s" by simp_all
  with Some CountClear_mark show ?thesis by (auto simp: Bitmap_Find_def)
qed

lemma Bitmap_Find_full: "CountClear bm = 0 \<Longrightarrow> Bitmap_Find bm = (- 1, bm)"
proof (cases "first_clear bm")
  case None then show ?thesis by (simp add: Bitmap_Find_def)
next
  case (Some s)
  assume z: "CountClear bm = 0"
  from first_clear_Some[OF Some] have "s < length bm" "\<not> bm ! s" by simp_all
  with CountClear_mark[of s bm] z show ?thesis by simp
qed

lemma marks_kept_refl [simp]: "marks_kept bm bm"
  by (simp add: marks_kept_def)

lemma marks_kept_trans: "marks_kept a b \<Longrightarrow> marks_kept b c \<Longrightarrow> marks_kept a c"
  by (simp add: marks_kept_def)

lemma marks_kept_Find:
  assumes "Bitmap_Find bm = (s, bm')"
  shows "marks_kept bm bm'"
proof (cases "first_clear bm")
  case None
  with assms show ?thesis by (auto simp: Bitmap_Find_def)
next
  case (Some x)
  with assms have b: "bm' = bm[x := True]" by (simp add: Bitmap_Find_def)
  have "bm[x := True] ! i" if "i < length bm" "bm ! i" for i
    using that by (cases "i = x") simp_all
  with b show ?thesis by (simp add: marks_kept_def)
qed

lemma CountClear_prefix_marked [simp]: "CountClear (prefix_marked k m) = m"
  by (simp add: CountClear_def prefix_marked_def)

lemma first_clear_prefix_marked: "first_clear (replicate k True @ False # bs) = Some k"
  by (induction k) simp_all

lemma Bitmap_Find_prefix_marked:
  "0 < m \<Longrightarrow> Bitmap_Find (prefix_marked k m) = (int k, prefix_marked (Suc k) (m - 1))"
proof -
  assume "0 < m"
  then obtain m' where m: "m = Suc m'" by (cases m) auto
  have "first_clear (prefix_marked k m) = Some k"
    unfolding prefix_marked_def m by (simp add: first_clear_prefix_marked)
  moreover have "(prefix_marked k m)[k := True] = prefix_marked (Suc k) m'"
    unfolding prefix_marked_def m
    by (simp add: list_update_append replicate_append_same)
  ultimately show ?thesis by (simp add: Bitmap_Find_def m)
qed

lemma replicate_False_prefix_marked: "replicate n False = prefix_marked 0 n"
  by (simp add: prefix_marked_def)

section \<open>Counting sectors\<close>

lemma DivRoundUp_0 [simp]: "DivRoundUp 0 s = 0"
  by (simp add: DivRoundUp_def)

lemma div128_shift: "(128 * q + x) div 128 = q + x div (128::nat)"
  by simp

lemma div128_one: "128 \<le> x \<Longrightarrow> x < 256 \<Longrightarrow> x div 128 = (1::nat)"
  by (rule div_nat_eqI) simp_all

lemma div128_plus: "(128 + x) div 128 = Suc (x div (128::nat))"
  by simp

lemma DivRoundUp_128: "DivRoundUp n 128 = (n + 127) div 128"
proof -
  define q r where "q = n div 128" and "r = n mod 128"
  have n: "n = 128 * q + r" and r: "r < 128" by (simp_all add: q_def r_def)
  show ?thesis
  proof (cases "r = 0")
    case True
    then show ?thesis using n by (simp add: DivRoundUp_def)
  next
    case False
    with r have "(r + 127) div 128 = 1" by (intro div128_one) simp_all
    moreover have "(n + 127) div 128 = q + (r + 127) div 128"
      unfolding n by (simp add: add.assoc)
    moreover have "n div 128 = q" "n mod 128 = r" by (simp_all add: q_def r_def)
    ultimately show ?thesis using False by (simp add: DivRoundUp_def)
  qed
qed

lemma ceil_small:
  assumes r: "r < (128::nat)" and n: "0 < (n::nat)"
  shows "(r + n + 127) div 128
         = (r + 127) div 128
           + ((if n > (128 - r) mod 128 then n - (128 - r) mod 128 else 0) + 127) div 128"
proof (cases "r = 0")
  case True
  then show ?thesis using n by simp
next
  case False
  with r have m: "(128 - r) mod 128 = 128 - r" by simp
  from False r have one: "(r + 127) div 128 = 1" by (intro div128_one) simp_all
  show ?thesis
  proof (cases "n > 128 - r")
    case F2: False
    with False r n have "(r + n + 127) div 128 = 1" by (intro div128_one) simp_all
    with one m F2 show ?thesis by simp
  next
    case True
    define n' where "n' = n - (128 - r)"
    have e: "r + n + 127 = 128 + (n' + 127)" using True r by (simp add: n'_def)
    have "(r + n + 127) div 128 = Suc ((n' + 127) div 128)"
      unfolding e by (rule div128_plus)
    with one m True show ?thesis by (simp add: n'_def)
  qed
qed

lemma newSectors_law:
  assumes "0 < newBytes"
  shows "DivRoundUp (numBytes h + newBytes) SECTOR_SIZE
         = DivRoundUp (numBytes h) SECTOR_SIZE + Expand_newSectors h newBytes"
proof -
  define q r where "q = numBytes h div 128" and "r = numBytes h mod 128"
  have b: "numBytes h = 128 * q + r" and r: "r < 128" by (simp_all add: q_def r_def)
  have l: "(numBytes h + newBytes + 127) div 128 = q + (r + newBytes + 127) div 128"
    unfolding b by (simp add: add.assoc)
  have m: "(numBytes h + 127) div 128 = q + (r + 127) div 128"
    unfolding b by (simp add: add.assoc)
  have o: "onLastSector h = (128 - r) mod 128"
    by (simp add: onLastSector_def SECTOR_SIZE_def r_def)
  show ?thesis
    unfolding Expand_newSectors_def Let_def SECTOR_SIZE_def DivRoundUp_128 l m o
    using ceil_small[OF r assms] by simp
qed

lemma within_last_sector:
  assumes "0 < newBytes" and "newBytes \<le> onLastSector h"
  shows "Expand_newSectors h newBytes = 0"
  using assms by (simp add: Expand_newSectors_def)

lemma DivRoundUp_le: "DivRoundUp n 128 \<le> n"
proof (cases "n = 0")
  case True then show ?thesis by simp
next
  case False
  then have "n + 127 \<le> 128 * n" by simp
  then have "(n + 127) div 128 \<le> (128 * n) div 128" by (rule div_le_mono)
  then show ?thesis by (simp add: DivRoundUp_128)
qed

lemma DivRoundUp_mono: "a \<le> b \<Longrightarrow> DivRoundUp a 128 \<le> DivRoundUp b 128"
  by (simp add: DivRoundUp_128 div_le_mono)

lemma DivRoundUp_exact: "DivRoundUp (128 * k) 128 = k"
  by (simp add: DivRoundUp_def)

lemma DivRoundUp_32_pos: "0 < n \<Longrightarrow> 0 < DivRoundUp n 32"
  by (simp add: DivRoundUp_def) (metis div_greater_zero_iff mod_less neq0_conv not_less zero_less_numeral)

lemma DivRoundUp_le_imp:
  assumes "DivRoundUp x 128 \<le> k"
  shows "x \<le> 128 * k"
proof -
  have "x + 127 = 128 * ((x + 127) div 128) + (x + 127) mod 128" by simp
  moreover have "(x + 127) mod 128 < 128" by simp
  moreover have "128 * ((x + 127) div 128) \<le> 128 * k" using assms by (simp add: DivRoundUp_128)
  ultimately show ?thesis by linarith
qed

lemma DivRoundUp_gt:
  assumes "128 * k < x"
  shows "k < DivRoundUp x 128"
proof (rule ccontr)
  assume "\<not> k < DivRoundUp x 128"
  then have "DivRoundUp x 128 \<le> k" by simp
  from DivRoundUp_le_imp[OF this] assms show False by simp
qed

lemma DivRoundUp_bound32: "n < 2 ^ 32 \<Longrightarrow> DivRoundUp n 128 \<le> 33554432"
proof -
  assume "n < 2 ^ 32"
  then have "n + 127 \<le> 4294967296 + 127" by simp
  then have "(n + 127) div 128 \<le> (4294967296 + 127) div 128" by (rule div_le_mono)
  then show ?thesis by (simp add: DivRoundUp_128)
qed

lemma DivRoundUp_32_le: "DivRoundUp n 32 \<le> n"
proof (cases "n mod 32 > 0")
  case False
  then show ?thesis by (simp add: DivRoundUp_def)
next
  case True
  then have "0 < n" by (cases "n = 0") simp_all
  then have "n div 32 < n" by (intro div_less_dividend) simp_all
  with True show ?thesis by (simp add: DivRoundUp_def)
qed

section \<open>Growing a file: \<^verbatim>\<open>FileHeader::Expand\<close>\<close>

lemma expand_direct_spec:
  "n - i \<le> CountClear fm \<Longrightarrow> n - i \<le> ns \<Longrightarrow>
   \<exists>fm' ds'. expand_direct i n fm ds ns = (fm', ds', ns - (n - i))
      \<and> marks_kept fm fm' \<and> CountClear fm' + (n - i) = CountClear fm
      \<and> length ds' = length ds"
proof (induction i n fm ds ns rule: expand_direct.induct)
  case (1 i n fm ds ns)
  show ?case
  proof (cases "i < n")
    case False
    then show ?thesis by (simp add: expand_direct.simps[of i n])
  next
    case True
    with "1.prems" have "0 < CountClear fm" by simp
    from Bitmap_Find_clear[OF this] obtain s where
      f: "Bitmap_Find fm = (int s, fm[s := True])" and c: "Suc (CountClear (fm[s := True])) = CountClear fm"
      by blast
    have "1 \<le> ns" using True "1.prems" by simp
    then have u: "usub ns 1 = ns - 1" by (simp add: usub_def)
    have p1: "n - Suc i \<le> CountClear (fm[s := True])" using "1.prems" c True by simp
    have p2: "n - Suc i \<le> usub ns 1" using "1.prems" u True by simp
    from "1.IH"[OF True f[symmetric] p1 p2] obtain fm' ds' where
      r: "expand_direct (Suc i) n (fm[s := True]) (ds[i := to_unsigned (int s)]) (usub ns 1)
            = (fm', ds', usub ns 1 - (n - Suc i))"
      and k: "marks_kept (fm[s := True]) fm'"
      and cc: "CountClear fm' + (n - Suc i) = CountClear (fm[s := True])"
      and l: "length ds' = length (ds[i := to_unsigned (int s)])"
      by blast
    have "expand_direct i n fm ds ns = (fm', ds', ns - (n - i))"
      using True f r u by (simp add: expand_direct.simps[of i n fm])
    moreover have "marks_kept fm fm'"
      using marks_kept_trans[OF marks_kept_Find[OF f] k] .
    moreover have "CountClear fm' + (n - i) = CountClear fm" using cc c True by simp
    moreover have "length ds' = length ds" using l by simp
    ultimately show ?thesis by blast
  qed
qed

lemma expand_direct_marks_kept:
  "expand_direct i n fm ds ns = (fm', ds', ns') \<Longrightarrow> marks_kept fm fm'"
proof (induction i n fm ds ns rule: expand_direct.induct)
  case (1 i n fm ds ns)
  show ?case
  proof (cases "i < n")
    case False
    with "1.prems" show ?thesis by (simp add: expand_direct.simps[of i n])
  next
    case True
    obtain s fm1 where f: "Bitmap_Find fm = (s, fm1)" by (cases "Bitmap_Find fm")
    with True "1.prems"
    have "expand_direct (Suc i) n fm1 (ds[i := to_unsigned s]) (usub ns 1) = (fm', ds', ns')"
      by (simp add: expand_direct.simps[of i n fm])
    from "1.IH"[OF True f[symmetric] this] marks_kept_Find[OF f]
    show ?thesis by (rule marks_kept_trans[rotated])
  qed
qed

lemma expand_row_marks_kept:
  "expand_row j fm row ns = (fm', row', ns') \<Longrightarrow> marks_kept fm fm'"
proof (induction j fm row ns rule: expand_row.induct)
  case (1 j fm row ns)
  show ?case
  proof (cases "j < NUM_INDIRECT \<and> ns > 0")
    case False
    with "1.prems" show ?thesis by (simp add: expand_row.simps[of j fm])
  next
    case True
    show ?thesis
    proof (cases "row ! j = - 1")
      case T: True
      obtain s fm1 where f: "Bitmap_Find fm = (s, fm1)" by (cases "Bitmap_Find fm")
      with True T "1.prems"
      have "expand_row (Suc j) fm1 (row[j := s]) (usub ns 1) = (fm', row', ns')"
        by (simp add: expand_row.simps[of j fm])
      from "1.IH"(1)[OF True T f[symmetric] this] marks_kept_Find[OF f]
      show ?thesis by (rule marks_kept_trans[rotated])
    next
      case F: False
      with True "1.prems" have "expand_row (Suc j) fm row ns = (fm', row', ns')"
        by (simp add: expand_row.simps[of j fm])
      from "1.IH"(2)[OF True F this] show ?thesis .
    qed
  qed
qed

lemma expand_indir_marks_kept:
  "expand_indir i fm fI sI is ns = (fm', fI', sI') \<Longrightarrow> marks_kept fm fm'"
proof (induction i fm fI sI "is" ns rule: expand_indir.induct)
  case (1 i fm fI sI "is" ns)
  show ?case
  proof (cases "i < NUM_INDIRECT \<and> is > 0")
    case False
    with "1.prems" show ?thesis by (simp add: expand_indir.simps[of i fm])
  next
    case True
    obtain fm1 fI1 is1 where
      a: "(if fI ! i = - 1 then
                 (case Bitmap_Find fm of (s, fm') \<Rightarrow> (fm', fI[i := s], usub is 1))
               else (fm, fI, is)) = (fm1, fI1, is1)"
      by (metis prod_cases3)
    obtain fm2 row ns2 where b: "expand_row 0 fm1 (sI ! i) ns = (fm2, row, ns2)"
      by (metis prod_cases3)
    have k1: "marks_kept fm fm1"
      using a marks_kept_Find by (auto split: if_splits prod.splits)
    have k2: "marks_kept fm1 fm2" using b by (rule expand_row_marks_kept)
    from True a b "1.prems"
    have "expand_indir (Suc i) fm2 fI1 (sI[i := row]) is1 ns2 = (fm', fI', sI')"
      by (simp add: expand_indir.simps[of i fm])
    from "1.IH"[OF True a[symmetric] refl b[symmetric] refl this]
    have k3: "marks_kept fm2 fm'" .
    from k1 k2 k3 show ?thesis by (blast intro: marks_kept_trans)
  qed
qed

lemma Expand_newSectors_bound:
  "newBytes < 2 ^ 32 \<Longrightarrow> Expand_newSectors h newBytes \<le> 33554432"
proof -
  assume a: "newBytes < 2 ^ 32"
  have "newBytes - onLastSector h < 2 ^ 32"
    using a by (rule less_imp_diff_less)
  then have "(if newBytes > onLastSector h then newBytes - onLastSector h else 0) < 2 ^ 32"
    by simp
  from DivRoundUp_bound32[OF this] show ?thesis
    by (simp add: Expand_newSectors_def Let_def SECTOR_SIZE_def)
qed

lemma header_laws_numSectors_bound:
  "header_laws h \<Longrightarrow> numSectors h \<le> numBytes h"
  by (simp add: header_laws_def SECTOR_SIZE_def DivRoundUp_le)

lemma expand_direct_stop: "\<not> i < n \<Longrightarrow> expand_direct i n fm ds ns = (fm, ds, ns)"
  by (simp add: expand_direct.simps[of i n])

lemma Expand_within_last_sector:
  assumes laws: "header_laws h" and pos: "0 < newBytes" and fit: "newBytes \<le> onLastSector h"
    and nowrap: "numBytes h + newBytes < 2 ^ 32"
  shows "Expand freeMap h newBytes = Inr (True, freeMap, h\<lparr>numBytes := numBytes h + newBytes\<rparr>)"
proof -
  have ns0: "Expand_newSectors h newBytes = 0" using pos fit by (rule within_last_sector)
  have law: "DivRoundUp (numBytes h + newBytes) SECTOR_SIZE = numSectors h"
    using newSectors_law[OF pos, of h] ns0 laws by (simp add: header_laws_def)
  have nsb: "numSectors h < 2 ^ 32"
    using header_laws_numSectors_bound[OF laws] nowrap by simp
  have is0: "Expand_indirSectors h newBytes 0 = 0"
  proof (cases "indirSector h = - 1")
    case False
    then show ?thesis by (simp add: Expand_indirSectors_def Let_def)
  next
    case True
    with laws have "numSectors h \<le> 29" by (simp add: header_laws_def NUM_DIRECT_val)
    with law have "DivRoundUp (numBytes h + newBytes) 128 \<le> 29"
      by (simp add: SECTOR_SIZE_def)
    then have "numBytes h + newBytes \<le> 128 * 29" by (rule DivRoundUp_le_imp)
    then have "numBytes h + newBytes \<le> 3712" by simp
    then show ?thesis using True nowrap
      by (simp add: Expand_indirSectors_def u32_def MAX_DIRECT_SIZE_val)
  qed
  have claim: "Expand_claim freeMap h newBytes 0 0 = (freeMap, h\<lparr>numBytes := numBytes h + newBytes\<rparr>)"
  proof -
    have u1: "u32 (numBytes h + newBytes) = numBytes h + newBytes" using nowrap by (simp add: u32_def)
    have u2: "u32 (numSectors h + 0) = numSectors h" using nsb by (simp add: u32_def)
    have i: "NUM_DIRECT < numSectors h \<Longrightarrow> indirSector h \<noteq> - 1"
      using laws by (simp add: header_laws_def)
    show ?thesis
      unfolding Expand_claim_def Let_def u1 u2
      using i by (simp add: expand_direct_stop split: if_splits)
  qed
  show ?thesis
    using pos ns0 is0 claim by (simp add: Expand_def Let_def u32_def)
qed

lemma Expand_to_direct_limit:
  assumes laws: "header_laws h" and pos: "0 < newBytes"
    and limit: "numBytes h + newBytes = MAX_DIRECT_SIZE"
  shows "indirSector h = - 1
     \<and> Expand_newSectors h newBytes = NUM_DIRECT - numSectors h
     \<and> (CountClear freeMap < NUM_DIRECT - numSectors h \<longrightarrow>
           Expand freeMap h newBytes = Inr (False, freeMap, h))
     \<and> (NUM_DIRECT - numSectors h \<le> CountClear freeMap \<longrightarrow>
          (\<exists>fm' ds. Expand freeMap h newBytes =
               Inr (True, fm', h\<lparr>numBytes := MAX_DIRECT_SIZE, numSectors := NUM_DIRECT,
                                 dataSectors := ds\<rparr>)
             \<and> marks_kept freeMap fm'
             \<and> CountClear fm' + (NUM_DIRECT - numSectors h) = CountClear freeMap))"
proof -
  let ?ns = "Expand_newSectors h newBytes"
  have sum: "numSectors h + ?ns = 29"
    using newSectors_law[OF pos, of h] laws limit
    by (simp add: header_laws_def MAX_DIRECT_SIZE_val SECTOR_SIZE_def DivRoundUp_def)
  then have le: "numSectors h \<le> 29" by simp
  with laws have ind: "indirSector h = - 1" by (simp add: header_laws_def NUM_DIRECT_val)
  from sum have ns: "?ns = NUM_DIRECT - numSectors h" by (simp add: NUM_DIRECT_val)
  have isz: "Expand_indirSectors h newBytes ?ns = 0"
    using ind limit by (simp add: Expand_indirSectors_def u32_def MAX_DIRECT_SIZE_val)
  have u: "u32 (?ns + 0) = ?ns" using sum by (simp add: u32_def)
  have fail: "CountClear freeMap < NUM_DIRECT - numSectors h \<longrightarrow>
           Expand freeMap h newBytes = Inr (False, freeMap, h)"
    using pos isz u ns by (simp add: Expand_def Let_def)
  have ok: "NUM_DIRECT - numSectors h \<le> CountClear freeMap \<longrightarrow>
          (\<exists>fm' ds. Expand freeMap h newBytes =
               Inr (True, fm', h\<lparr>numBytes := MAX_DIRECT_SIZE, numSectors := NUM_DIRECT,
                                 dataSectors := ds\<rparr>)
             \<and> marks_kept freeMap fm'
             \<and> CountClear fm' + (NUM_DIRECT - numSectors h) = CountClear freeMap)"
  proof
    assume space: "NUM_DIRECT - numSectors h \<le> CountClear freeMap"
    have u1: "u32 (numBytes h + newBytes) = MAX_DIRECT_SIZE"
      using limit by (simp add: u32_def MAX_DIRECT_SIZE_val)
    have u2: "u32 (numSectors h + ?ns) = NUM_DIRECT"
      using sum by (simp add: u32_def NUM_DIRECT_val)
    from expand_direct_spec[of NUM_DIRECT "numSectors h" freeMap ?ns "dataSectors h"] space ns
    obtain fm' ds' where
      d: "expand_direct (numSectors h) NUM_DIRECT freeMap (dataSectors h) ?ns
            = (fm', ds', ?ns - (NUM_DIRECT - numSectors h))"
      and k: "marks_kept freeMap fm'"
      and c: "CountClear fm' + (NUM_DIRECT - numSectors h) = CountClear freeMap"
      by auto
    have claim: "\<exists>fm' ds. Expand_claim freeMap h newBytes ?ns 0 =
               (fm', h\<lparr>numBytes := MAX_DIRECT_SIZE, numSectors := NUM_DIRECT, dataSectors := ds\<rparr>)
             \<and> marks_kept freeMap fm'
             \<and> CountClear fm' + (NUM_DIRECT - numSectors h) = CountClear freeMap"
    proof (cases "numSectors h < NUM_DIRECT")
      case True
      have "Expand_claim freeMap h newBytes ?ns 0 =
               (fm', h\<lparr>numBytes := MAX_DIRECT_SIZE, numSectors := NUM_DIRECT, dataSectors := ds'\<rparr>)"
        unfolding Expand_claim_def Let_def u1 u2 using True d by simp
      with k c show ?thesis by blast
    next
      case False
      have "Expand_claim freeMap h newBytes ?ns 0 =
               (freeMap, h\<lparr>numBytes := MAX_DIRECT_SIZE, numSectors := NUM_DIRECT,
                            dataSectors := dataSectors h\<rparr>)"
        unfolding Expand_claim_def Let_def u1 u2 using False by simp
      moreover have "NUM_DIRECT - numSectors h = 0" using False by simp
      ultimately show ?thesis by (intro exI[of _ freeMap] exI[of _ "dataSectors h"]) simp
    qed
    then obtain fm2 ds2 where
      e: "Expand_claim freeMap h newBytes ?ns 0 =
               (fm2, h\<lparr>numBytes := MAX_DIRECT_SIZE, numSectors := NUM_DIRECT, dataSectors := ds2\<rparr>)"
      and k2: "marks_kept freeMap fm2"
      and c2: "CountClear fm2 + (NUM_DIRECT - numSectors h) = CountClear freeMap"
      by blast
    have "Expand freeMap h newBytes =
               Inr (True, fm2, h\<lparr>numBytes := MAX_DIRECT_SIZE, numSectors := NUM_DIRECT,
                                 dataSectors := ds2\<rparr>)"
      using pos isz u ns space e by (simp add: Expand_def Let_def)
    with k2 c2 show "\<exists>fm' ds. Expand freeMap h newBytes =
               Inr (True, fm', h\<lparr>numBytes := MAX_DIRECT_SIZE, numSectors := NUM_DIRECT,
                                 dataSectors := ds\<rparr>)
             \<and> marks_kept freeMap fm'
             \<and> CountClear fm' + (NUM_DIRECT - numSectors h) = CountClear freeMap" by blast
  qed
  from ind ns fail ok show ?thesis by blast
qed

lemma Expand_claim_keeps_indirSector:
  assumes "indirSector h \<noteq> - 1" and "Expand_claim fm h nb ns is = (fm', h')"
  shows "indirSector h' = indirSector h"
proof -
  obtain fm1 ds ns1 where d:
    "(if numSectors h < NUM_DIRECT then
        expand_direct (numSectors h)
          (min (u32 (numSectors h + ns)) NUM_DIRECT) fm (dataSectors h) ns
      else (fm, dataSectors h, ns)) = (fm1, ds, ns1)"
    by (metis prod_cases3)
  obtain fm3 fI sI where e:
    "expand_indir 0 fm1 (firstIndir h) (secondIndir h) is ns1 = (fm3, fI, sI)"
    by (metis prod_cases3)
  show ?thesis
    using assms d e unfolding Expand_claim_def Let_def
    by (auto split: if_splits)
qed

lemma Expand_keeps_indirSector:
  assumes "indirSector h \<noteq> - 1" and "Expand fm h nb = Inr (b, fm', h')"
  shows "indirSector h' = indirSector h"
proof (cases "nb = 0")
  case True
  with assms show ?thesis by (simp add: Expand_def)
next
  case False
  let ?ns = "Expand_newSectors h nb"
  let ?is = "Expand_indirSectors h nb ?ns"
  show ?thesis
  proof (cases "CountClear fm < u32 (?ns + ?is)")
    case True
    with False assms show ?thesis by (simp add: Expand_def Let_def)
  next
    case F: False
    obtain fm2 h2 where c: "Expand_claim fm h nb ?ns ?is = (fm2, h2)"
      by (cases "Expand_claim fm h nb ?ns ?is")
    with False F assms have "h' = h2" by (simp add: Expand_def Let_def)
    with Expand_claim_keeps_indirSector[OF assms(1) c] show ?thesis by simp
  qed
qed

lemma Expand_crossing:
  assumes laws: "header_laws h" and pos: "0 < newBytes"
    and nowrap: "numBytes h + newBytes < 2 ^ 32"
    and direct: "indirSector h = - 1"
    and cross: "MAX_DIRECT_SIZE < numBytes h + newBytes"
    and ok: "Expand freeMap h newBytes = Inr (True, fm', h')"
  shows "\<exists>s. indirSector h' = int s \<and> s < length freeMap \<and> \<not> freeMap ! s \<and> fm' ! s"
proof -
  let ?ns = "Expand_newSectors h newBytes"
  let ?is = "Expand_indirSectors h newBytes ?ns"
  let ?old = "numSectors h"
  have old: "?old \<le> 29" using laws direct by (simp add: header_laws_def NUM_DIRECT_val)
  have "128 * 29 < numBytes h + newBytes" using cross by (simp add: MAX_DIRECT_SIZE_val)
  from DivRoundUp_gt[OF this] have gt: "29 < ?old + ?ns"
    using newSectors_law[OF pos, of h] laws by (simp add: header_laws_def SECTOR_SIZE_def)
  have nb: "newBytes < 2 ^ 32" using nowrap by simp
  note nsb = Expand_newSectors_bound[OF nb, of h]
  let ?R = "?ns - (29 - ?old)"
  have u1: "usub NUM_DIRECT ?old = 29 - ?old" using old by (simp add: usub_def NUM_DIRECT_val)
  have "29 - ?old \<le> ?ns" using gt by simp
  then have u2: "usub ?ns (29 - ?old) = ?R" by (simp add: usub_def)
  have Rb: "DivRoundUp ?R 32 \<le> 33554432"
    using DivRoundUp_32_le[of ?R] nsb by simp
  have isv: "?is = DivRoundUp ?R 32 + 1"
    using direct cross nowrap u1 u2 Rb
    by (simp add: Expand_indirSectors_def Let_def u32_def NUM_INDIRECT_val)
  have sumb: "u32 (?ns + ?is) = ?ns + ?is"
    using isv Rb nsb by (simp add: u32_def)
  have enough: "?ns + ?is \<le> CountClear freeMap"
  proof (rule ccontr)
    assume "\<not> ?ns + ?is \<le> CountClear freeMap"
    then have "CountClear freeMap < u32 (?ns + ?is)" using sumb by simp
    with pos ok show False by (simp add: Expand_def Let_def)
  qed
  obtain fm2 h2 where c: "Expand_claim freeMap h newBytes ?ns ?is = (fm2, h2)"
    by (cases "Expand_claim freeMap h newBytes ?ns ?is")
  with pos enough sumb ok have res: "fm' = fm2" "h' = h2" by (simp_all add: Expand_def Let_def)
  have w1: "u32 (numBytes h + newBytes) = numBytes h + newBytes" using nowrap by (simp add: u32_def)
  have w2: "u32 (?old + ?ns) = ?old + ?ns" using old nsb by (simp add: u32_def)
  have m: "min (?old + ?ns) NUM_DIRECT = 29" using gt by (simp add: NUM_DIRECT_val)
  obtain fm1 ds ns1 where d:
    "(if ?old < 29 then expand_direct ?old 29 freeMap (dataSectors h) ?ns
      else (freeMap, dataSectors h, ?ns)) = (fm1, ds, ns1)"
    by (metis prod_cases3)
  have k1: "marks_kept freeMap fm1"
    using d expand_direct_marks_kept by (auto split: if_splits)
  have c1: "CountClear fm1 + (29 - ?old) = CountClear freeMap"
  proof (cases "?old < 29")
    case False
    with d old show ?thesis by simp
  next
    case True
    have p1: "29 - ?old \<le> CountClear freeMap" using enough gt by simp
    have p2: "29 - ?old \<le> ?ns" using gt by simp
    from expand_direct_spec[OF p1 p2, of "dataSectors h"] d True
    show ?thesis by auto
  qed
  have pos1: "0 < CountClear fm1" using c1 enough isv gt by simp
  from Bitmap_Find_clear[OF pos1] obtain s where
    f: "Bitmap_Find fm1 = (int s, fm1[s := True])" and sl: "s < length fm1" and sc: "\<not> fm1 ! s"
    by blast
  have sl0: "s < length freeMap" using sl k1 by (simp add: marks_kept_def)
  have sc0: "\<not> freeMap ! s" using sc sl0 k1 by (auto simp: marks_kept_def)
  let ?h3 = "h\<lparr>numBytes := numBytes h + newBytes, numSectors := ?old + ?ns, dataSectors := ds,
                indirSector := int s\<rparr>"
  obtain fm3 fI sI where e:
    "expand_indir 0 (fm1[s := True]) (firstIndir h) (secondIndir h) (usub ?is 1) ns1 = (fm3, fI, sI)"
    by (metis prod_cases3)
  have "0 < ?R" using gt old by simp
  then have "0 < DivRoundUp ?R 32" by (rule DivRoundUp_32_pos)
  then have K: "0 < usub ?is 1" using isv by (simp add: usub_def)
  have "Expand_claim freeMap h newBytes ?ns ?is = (fm3, ?h3\<lparr>firstIndir := fI, secondIndir := sI\<rparr>)"
    unfolding Expand_claim_def Let_def w1 w2
    using d f e K gt direct by (cases "?old < 29") (simp_all add: m, simp_all add: NUM_DIRECT_val)
  with c res have r: "fm' = fm3" "h' = ?h3\<lparr>firstIndir := fI, secondIndir := sI\<rparr>" by simp_all
  have k3: "marks_kept (fm1[s := True]) fm3" using e by (rule expand_indir_marks_kept)
  have "fm3 ! s" using k3 sl by (simp add: marks_kept_def)
  with r sl0 sc0 show ?thesis by (intro exI[of _ s]) simp
qed

lemma DivRoundUp_32_zero: "DivRoundUp n 32 = 0 \<Longrightarrow> n = 0"
  using DivRoundUp_32_pos [of n] by (cases "n = 0") simp_all

lemma DivRoundUp_32_small: "0 < n \<Longrightarrow> n \<le> 32 \<Longrightarrow> DivRoundUp n 32 = 1"
proof -
  assume p: "0 < n" and l: "n \<le> 32"
  show ?thesis
  proof (cases "n = 32")
    case True
    then show ?thesis by (simp add: DivRoundUp_def)
  next
    case False
    with l have "n < 32" by simp
    with p show ?thesis by (simp add: DivRoundUp_def)
  qed
qed

lemma DivRoundUp_32_shift: "DivRoundUp (m + 32) 32 = DivRoundUp m 32 + 1"
  by (simp add: DivRoundUp_def)

lemma DivRoundUp_32_step:
  assumes "0 < n"
  shows "DivRoundUp (n - min 32 n) 32 = DivRoundUp n 32 - 1"
proof (cases "n \<le> 32")
  case True
  then have "n - min 32 n = 0" by simp
  then show ?thesis using DivRoundUp_32_small [OF assms True] by simp
next
  case False
  then obtain m where m: "n = m + 32" by (metis add.commute le_add_diff_inverse nat_le_linear)
  then have "n - min 32 n = m" by simp
  then show ?thesis unfolding m by (simp add: DivRoundUp_32_shift)
qed

lemma DivRoundUp_32: "DivRoundUp n 32 = (n + 31) div 32"
proof -
  define q r where "q = n div 32" and "r = n mod 32"
  have n: "n = 32 * q + r" and r: "r < 32" by (simp_all add: q_def r_def)
  show ?thesis
  proof (cases "r = 0")
    case True
    then show ?thesis using n by (simp add: DivRoundUp_def)
  next
    case False
    with r have "(r + 31) div 32 = 1" by (intro div_nat_eqI) simp_all
    moreover have "(n + 31) div 32 = q + (r + 31) div 32"
      unfolding n by (simp add: add.assoc)
    moreover have "n div 32 = q" "n mod 32 = r" by (simp_all add: q_def r_def)
    ultimately show ?thesis using False by (simp add: DivRoundUp_def)
  qed
qed

lemma DivRoundUp_32_mono: "a \<le> b \<Longrightarrow> DivRoundUp a 32 \<le> DivRoundUp b 32"
  by (simp add: DivRoundUp_32 div_le_mono)

lemma expand_row_count:
  assumes "\<And>j'. j \<le> j' \<Longrightarrow> j' < 32 \<Longrightarrow> row ! j' = - 1"
      and "min (32 - j) ns \<le> CountClear fm"
  shows "\<exists>fm' row'. expand_row j fm row ns = (fm', row', ns - min (32 - j) ns)
           \<and> CountClear fm' + min (32 - j) ns = CountClear fm"
  using assms
proof (induction j fm row ns rule: expand_row.induct)
  case (1 j fm row ns)
  show ?case
  proof (cases "j < NUM_INDIRECT \<and> ns > 0")
    case False
    then have z: "min (32 - j) ns = 0" by (auto simp: NUM_INDIRECT_val)
    have "expand_row j fm row ns = (fm, row, ns)"
      by (subst expand_row.simps) (rule if_not_P [OF False])
    with z show ?thesis by simp
  next
    case True
    then have j: "j < 32" and ns: "0 < ns" by (simp_all add: NUM_INDIRECT_val)
    have r: "row ! j = - 1" using "1.prems"(1) [of j] j by simp
    have pm: "0 < min (32 - j) ns" using j ns by simp
    from pm "1.prems"(2) have "0 < CountClear fm" by (rule less_le_trans)
    from Bitmap_Find_clear [OF this] obtain s where
      f: "Bitmap_Find fm = (int s, fm[s := True])"
      and c: "Suc (CountClear (fm[s := True])) = CountClear fm" by blast
    have u: "usub ns 1 = ns - 1" using ns by (simp add: usub_def)
    have m: "min (32 - j) ns = Suc (min (32 - Suc j) (ns - 1))" using j ns by simp
    have p1: "\<And>j'. Suc j \<le> j' \<Longrightarrow> j' < 32 \<Longrightarrow> (row[j := int s]) ! j' = - 1"
      using "1.prems"(1) by simp
    have p2: "min (32 - Suc j) (usub ns 1) \<le> CountClear (fm[s := True])"
      using "1.prems"(2) c m u by simp
    from "1.IH"(1) [OF True r f [symmetric] p1 p2] obtain fm' row' where
      e: "expand_row (Suc j) (fm[s := True]) (row[j := int s]) (usub ns 1)
            = (fm', row', usub ns 1 - min (32 - Suc j) (usub ns 1))"
      and cc: "CountClear fm' + min (32 - Suc j) (usub ns 1) = CountClear (fm[s := True])"
      by blast
    have "expand_row j fm row ns = (fm', row', ns - min (32 - j) ns)"
      using True r f e u m by (simp add: expand_row.simps [of j fm])
    moreover have "CountClear fm' + min (32 - j) ns = CountClear fm"
      using cc c u m by simp
    ultimately show ?thesis by blast
  qed
qed

lemma expand_indir_count:
  assumes "\<And>i'. i \<le> i' \<Longrightarrow> i' < 32 \<Longrightarrow> fI ! i' = - 1"
      and "\<And>i' j. i \<le> i' \<Longrightarrow> i' < 32 \<Longrightarrow> j < 32 \<Longrightarrow> sI ! i' ! j = - 1"
      and "K = DivRoundUp ns 32"
      and "K \<le> 32 - i"
      and "K + ns \<le> CountClear fm"
  shows "\<exists>fm' fI' sI'. expand_indir i fm fI sI K ns = (fm', fI', sI')
           \<and> CountClear fm' + (K + ns) = CountClear fm"
  using assms
proof (induction i fm fI sI K ns rule: expand_indir.induct)
  case (1 i fm fI sI K ns)
  show ?case
  proof (cases "i < NUM_INDIRECT \<and> K > 0")
    case False
    then have k0: "K = 0" using "1.prems"(4) by (auto simp: NUM_INDIRECT_val)
    from this "1.prems"(3) have n0: "ns = 0" by (simp add: DivRoundUp_32_zero)
    have "expand_indir i fm fI sI K ns = (fm, fI, sI)"
      by (subst expand_indir.simps) (rule if_not_P [OF False])
    with k0 n0 show ?thesis by simp
  next
    case True
    then have i: "i < 32" and K: "0 < K" by (simp_all add: NUM_INDIRECT_val)
    have ns: "0 < ns" using K "1.prems"(3) by (cases "ns = 0") simp_all
    have fi: "fI ! i = - 1" using "1.prems"(1) [of i] i by simp
    have "0 < CountClear fm" using "1.prems"(5) K by simp
    from Bitmap_Find_clear [OF this] obtain s where
      f: "Bitmap_Find fm = (int s, fm[s := True])"
      and c: "Suc (CountClear (fm[s := True])) = CountClear fm" by blast
    have u: "usub K 1 = K - 1" using K by (simp add: usub_def)
    let ?fm1 = "fm[s := True]"
    have a: "(if fI ! i = - 1 then
                 (case Bitmap_Find fm of (s, fm') \<Rightarrow> (fm', fI[i := s], usub K 1))
               else (fm, fI, K)) = (?fm1, fI[i := int s], usub K 1)"
      using fi f by simp
    have rowp: "\<And>j'. 0 \<le> j' \<Longrightarrow> j' < 32 \<Longrightarrow> (sI ! i) ! j' = - 1"
      using "1.prems"(2) [of i] i by simp
    have le: "min 32 ns \<le> ns" by simp
    have rc: "min (32 - 0) ns \<le> CountClear ?fm1"
      using "1.prems"(5) c K le by simp
    from expand_row_count [OF rowp rc] obtain fm2 row where
      er: "expand_row 0 ?fm1 (sI ! i) ns = (fm2, row, ns - min 32 ns)"
      and c2: "CountClear fm2 + min 32 ns = CountClear ?fm1" by auto
    have p1: "\<And>i'. Suc i \<le> i' \<Longrightarrow> i' < 32 \<Longrightarrow> (fI[i := int s]) ! i' = - 1"
      using "1.prems"(1) by simp
    have p2: "\<And>i' j. Suc i \<le> i' \<Longrightarrow> i' < 32 \<Longrightarrow> j < 32 \<Longrightarrow> (sI[i := row]) ! i' ! j = - 1"
      using "1.prems"(2) by simp
    have p3: "usub K 1 = DivRoundUp (ns - min 32 ns) 32"
      using DivRoundUp_32_step [OF ns] "1.prems"(3) u by simp
    have p4: "usub K 1 \<le> 32 - Suc i" using "1.prems"(4) u K by simp
    have p5: "usub K 1 + (ns - min 32 ns) \<le> CountClear fm2"
      using "1.prems"(5) c c2 u K le by simp
    from "1.IH" [OF True a [symmetric] refl er [symmetric] refl p1 p2 p3 p4 p5]
    obtain fm' fI' sI' where
      e: "expand_indir (Suc i) fm2 (fI[i := int s]) (sI[i := row]) (usub K 1) (ns - min 32 ns)
            = (fm', fI', sI')"
      and cc: "CountClear fm' + (usub K 1 + (ns - min 32 ns)) = CountClear fm2"
      by blast
    have "expand_indir i fm fI sI K ns = (fm', fI', sI')"
      using True a er e by (simp add: expand_indir.simps [of i fm])
    moreover have "CountClear fm' + (K + ns) = CountClear fm"
      using cc c2 c u K le by simp
    ultimately show ?thesis by blast
  qed
qed

lemma Bitmap_Find_at_most_one:
  assumes "Bitmap_Find fm = (s, fm1)"
  shows "CountClear fm \<le> Suc (CountClear fm1)"
proof (cases "CountClear fm = 0")
  case True
  then show ?thesis by simp
next
  case False
  then have "0 < CountClear fm" by simp
  from Bitmap_Find_clear [OF this] assms show ?thesis by auto
qed

lemma expand_row_at_most:
  "expand_row j fm row ns = (fm', row', ns') \<Longrightarrow>
     ns' \<le> ns \<and> CountClear fm + ns' \<le> CountClear fm' + ns"
proof (induction j fm row ns rule: expand_row.induct)
  case (1 j fm row ns)
  show ?case
  proof (cases "j < NUM_INDIRECT \<and> ns > 0")
    case False
    have "expand_row j fm row ns = (fm, row, ns)"
      by (subst expand_row.simps) (rule if_not_P [OF False])
    with "1.prems" show ?thesis by simp
  next
    case True
    then have ns: "0 < ns" by simp
    show ?thesis
    proof (cases "row ! j = - 1")
      case T: True
      obtain s fm1 where f: "Bitmap_Find fm = (s, fm1)" by (cases "Bitmap_Find fm")
      have u: "usub ns 1 = ns - 1" using ns by (simp add: usub_def)
      from True T f "1.prems"
      have e: "expand_row (Suc j) fm1 (row[j := s]) (usub ns 1) = (fm', row', ns')"
        by (simp add: expand_row.simps [of j fm])
      from "1.IH"(1) [OF True T f [symmetric] e]
      have a: "ns' \<le> usub ns 1" and b: "CountClear fm1 + ns' \<le> CountClear fm' + usub ns 1"
        by simp_all
      note c = Bitmap_Find_at_most_one [OF f]
      from a u ns have "ns' \<le> ns" by simp
      moreover from b c u ns have "CountClear fm + ns' \<le> CountClear fm' + ns" by linarith
      ultimately show ?thesis by simp
    next
      case F: False
      with True "1.prems" have "expand_row (Suc j) fm row ns = (fm', row', ns')"
        by (simp add: expand_row.simps [of j fm])
      from "1.IH"(2) [OF True F this] show ?thesis .
    qed
  qed
qed

lemma expand_indir_at_most:
  "expand_indir i fm fI sI K ns = (fm', fI', sI') \<Longrightarrow>
     CountClear fm \<le> CountClear fm' + (K + ns)"
proof (induction i fm fI sI K ns rule: expand_indir.induct)
  case (1 i fm fI sI K ns)
  show ?case
  proof (cases "i < NUM_INDIRECT \<and> K > 0")
    case False
    have "expand_indir i fm fI sI K ns = (fm, fI, sI)"
      by (subst expand_indir.simps) (rule if_not_P [OF False])
    with "1.prems" show ?thesis by simp
  next
    case True
    then have K: "0 < K" by simp
    obtain fm1 fI1 K1 where
      a: "(if fI ! i = - 1 then
                 (case Bitmap_Find fm of (s, fm') \<Rightarrow> (fm', fI[i := s], usub K 1))
               else (fm, fI, K)) = (fm1, fI1, K1)"
      by (metis prod_cases3)
    have b1: "CountClear fm + K1 \<le> CountClear fm1 + K"
    proof (cases "fI ! i = - 1")
      case T: True
      obtain s fm0 where f: "Bitmap_Find fm = (s, fm0)" by (cases "Bitmap_Find fm")
      with a T have "fm1 = fm0" "K1 = usub K 1" by simp_all
      moreover have "usub K 1 = K - 1" using K by (simp add: usub_def)
      ultimately show ?thesis using Bitmap_Find_at_most_one [OF f] K by simp
    next
      case F: False
      with a show ?thesis by simp
    qed
    obtain fm2 row ns2 where er: "expand_row 0 fm1 (sI ! i) ns = (fm2, row, ns2)"
      by (metis prod_cases3)
    from expand_row_at_most [OF er]
    have b2: "ns2 \<le> ns" and b3: "CountClear fm1 + ns2 \<le> CountClear fm2 + ns" by simp_all
    have e: "expand_indir (Suc i) fm2 fI1 (sI[i := row]) K1 ns2 = (fm', fI', sI')"
      using True a er "1.prems" by (simp add: expand_indir.simps [of i fm])
    from "1.IH" [OF True a [symmetric] refl er [symmetric] refl e]
    have b4: "CountClear fm2 \<le> CountClear fm' + (K1 + ns2)" .
    from b1 b3 b4 show ?thesis by linarith
  qed
qed

lemma crossing_arith:
  assumes laws: "header_laws h" and pos: "0 < newBytes"
    and nowrap: "numBytes h + newBytes < 2 ^ 32"
    and direct: "indirSector h = - 1"
    and cross: "MAX_DIRECT_SIZE < numBytes h + newBytes"
  shows "numSectors h \<le> 29"
    and "29 < numSectors h + Expand_newSectors h newBytes"
    and "numSectors h + Expand_newSectors h newBytes = DivRoundUp (numBytes h + newBytes) SECTOR_SIZE"
    and "Expand_indirSectors h newBytes (Expand_newSectors h newBytes)
           = DivRoundUp (numSectors h + Expand_newSectors h newBytes - 29) 32 + 1"
    and "u32 (Expand_newSectors h newBytes
              + Expand_indirSectors h newBytes (Expand_newSectors h newBytes))
           = Expand_newSectors h newBytes
              + Expand_indirSectors h newBytes (Expand_newSectors h newBytes)"
    and "u32 (numBytes h + newBytes) = numBytes h + newBytes"
    and "u32 (numSectors h + Expand_newSectors h newBytes)
           = numSectors h + Expand_newSectors h newBytes"
proof -
  let ?ns = "Expand_newSectors h newBytes"
  let ?is = "Expand_indirSectors h newBytes ?ns"
  let ?old = "numSectors h"
  show old: "?old \<le> 29" using laws direct by (simp add: header_laws_def NUM_DIRECT_val)
  have "128 * 29 < numBytes h + newBytes" using cross by (simp add: MAX_DIRECT_SIZE_val)
  from DivRoundUp_gt[OF this] show gt: "29 < ?old + ?ns"
    using newSectors_law[OF pos, of h] laws by (simp add: header_laws_def SECTOR_SIZE_def)
  show "?old + ?ns = DivRoundUp (numBytes h + newBytes) SECTOR_SIZE"
    using newSectors_law[OF pos, of h] laws by (simp add: header_laws_def)
  have nb: "newBytes < 2 ^ 32" using nowrap by simp
  note nsb = Expand_newSectors_bound[OF nb, of h]
  let ?R = "?ns - (29 - ?old)"
  have R: "?R = ?old + ?ns - 29" using old gt by simp
  have u1: "usub NUM_DIRECT ?old = 29 - ?old" using old by (simp add: usub_def NUM_DIRECT_val)
  have "29 - ?old \<le> ?ns" using gt by simp
  then have u2: "usub ?ns (29 - ?old) = ?R" by (simp add: usub_def)
  have Rb: "DivRoundUp ?R 32 \<le> 33554432"
    using DivRoundUp_32_le[of ?R] nsb by simp
  have "?is = DivRoundUp ?R 32 + 1"
    using direct cross nowrap u1 u2 Rb
    by (simp add: Expand_indirSectors_def Let_def u32_def NUM_INDIRECT_val)
  then show isv: "?is = DivRoundUp (?old + ?ns - 29) 32 + 1" unfolding R .
  show "u32 (?ns + ?is) = ?ns + ?is"
    using isv Rb nsb unfolding R [symmetric] by (simp add: u32_def)
  show "u32 (numBytes h + newBytes) = numBytes h + newBytes" using nowrap by (simp add: u32_def)
  show "u32 (?old + ?ns) = ?old + ?ns" using old nsb by (simp add: u32_def)
qed

lemma Expand_crossing_space:
  assumes laws: "header_laws h" and pos: "0 < newBytes"
    and nowrap: "numBytes h + newBytes < 2 ^ 32"
    and direct: "indirSector h = - 1"
    and cross: "MAX_DIRECT_SIZE < numBytes h + newBytes"
  shows "(CountClear freeMap
            < DivRoundUp (numBytes h + newBytes) SECTOR_SIZE - numSectors h
              + DivRoundUp (DivRoundUp (numBytes h + newBytes) SECTOR_SIZE - NUM_DIRECT) NUM_INDIRECT
              + 1
          \<longrightarrow> Expand freeMap h newBytes = Inr (False, freeMap, h))
       \<and> (DivRoundUp (numBytes h + newBytes) SECTOR_SIZE - numSectors h
              + DivRoundUp (DivRoundUp (numBytes h + newBytes) SECTOR_SIZE - NUM_DIRECT) NUM_INDIRECT
              + 1 \<le> CountClear freeMap
          \<longrightarrow> (\<exists>fm' h'. Expand freeMap h newBytes = Inr (True, fm', h')))"
proof -
  let ?ns = "Expand_newSectors h newBytes"
  let ?is = "Expand_indirSectors h newBytes ?ns"
  note ar = crossing_arith [OF laws pos nowrap direct cross]
  have n: "DivRoundUp (numBytes h + newBytes) SECTOR_SIZE - numSectors h = ?ns"
    using ar(3) by simp
  have need: "DivRoundUp (numBytes h + newBytes) SECTOR_SIZE - numSectors h
              + DivRoundUp (DivRoundUp (numBytes h + newBytes) SECTOR_SIZE - NUM_DIRECT) NUM_INDIRECT
              + 1 = ?ns + ?is"
    unfolding n ar(4) ar(3) [symmetric] by (simp add: NUM_DIRECT_val NUM_INDIRECT_val)
  obtain fm2 h2 where c: "Expand_claim freeMap h newBytes ?ns ?is = (fm2, h2)"
    by (cases "Expand_claim freeMap h newBytes ?ns ?is")
  show ?thesis
    unfolding need using pos c by (simp add: Expand_def Let_def ar(5))
qed

lemma Expand_crossing_count:
  assumes laws: "header_laws h" and pos: "0 < newBytes"
    and nowrap: "numBytes h + newBytes < 2 ^ 32"
    and direct: "indirSector h = - 1"
    and cross: "MAX_DIRECT_SIZE < numBytes h + newBytes"
    and ok: "Expand freeMap h newBytes = Inr (True, fm', h')"
  shows "numBytes h' = numBytes h + newBytes
       \<and> numSectors h' = DivRoundUp (numBytes h + newBytes) SECTOR_SIZE
       \<and> marks_kept freeMap fm'
       \<and> CountClear freeMap
             \<le> CountClear fm' + (numSectors h' - numSectors h)
                 + DivRoundUp (numSectors h' - NUM_DIRECT) NUM_INDIRECT + 1
       \<and> (tables_unused h \<and> numBytes h + newBytes \<le> (NUM_DIRECT + NUM_INDIRECT * NUM_INDIRECT) * SECTOR_SIZE \<longrightarrow>
            CountClear fm' + (numSectors h' - numSectors h)
              + DivRoundUp (numSectors h' - NUM_DIRECT) NUM_INDIRECT + 1 = CountClear freeMap)"
proof -
  let ?ns = "Expand_newSectors h newBytes"
  let ?is = "Expand_indirSectors h newBytes ?ns"
  let ?old = "numSectors h"
  note ar = crossing_arith [OF laws pos nowrap direct cross]
  note old = ar(1) and gt = ar(2) and isv = ar(4) and sumb = ar(5) and w1 = ar(6) and w2 = ar(7)
  let ?R = "?old + ?ns - 29"
  have enough: "?ns + ?is \<le> CountClear freeMap"
  proof (rule ccontr)
    assume "\<not> ?ns + ?is \<le> CountClear freeMap"
    then have "CountClear freeMap < u32 (?ns + ?is)" using sumb by simp
    with pos ok show False by (simp add: Expand_def Let_def)
  qed
  obtain fm2 h2 where c: "Expand_claim freeMap h newBytes ?ns ?is = (fm2, h2)"
    by (cases "Expand_claim freeMap h newBytes ?ns ?is")
  with pos enough sumb ok have res: "fm' = fm2" "h' = h2" by (simp_all add: Expand_def Let_def)
  have m: "min (?old + ?ns) NUM_DIRECT = 29" using gt by (simp add: NUM_DIRECT_val)
  obtain fm1 ds ns1 where d:
    "(if ?old < 29 then expand_direct ?old 29 freeMap (dataSectors h) ?ns
      else (freeMap, dataSectors h, ?ns)) = (fm1, ds, ns1)"
    by (metis prod_cases3)
  have k1: "marks_kept freeMap fm1"
    using d expand_direct_marks_kept by (auto split: if_splits)
  have c1: "CountClear fm1 + (29 - ?old) = CountClear freeMap \<and> ns1 = ?ns - (29 - ?old)"
  proof (cases "?old < 29")
    case False
    with d old show ?thesis by simp
  next
    case True
    have p1: "29 - ?old \<le> CountClear freeMap" using enough gt by simp
    have p2: "29 - ?old \<le> ?ns" using gt by simp
    from expand_direct_spec[OF p1 p2, of "dataSectors h"] d True
    show ?thesis by auto
  qed
  from c1 have c1a: "CountClear fm1 + (29 - ?old) = CountClear freeMap"
    and c1b: "ns1 = ?ns - (29 - ?old)" by simp_all
  have ns1: "ns1 = ?R" using c1b old gt by simp
  have e2: "?ns + (DivRoundUp ?R 32 + 1) \<le> CountClear freeMap"
    using enough unfolding isv .
  have pos1: "0 < CountClear fm1" using c1a e2 gt by linarith
  from Bitmap_Find_clear[OF pos1] obtain s where
    f: "Bitmap_Find fm1 = (int s, fm1[s := True])"
    and cs: "Suc (CountClear (fm1[s := True])) = CountClear fm1"
    by blast
  let ?h3 = "h\<lparr>numBytes := numBytes h + newBytes, numSectors := ?old + ?ns, dataSectors := ds,
                indirSector := int s\<rparr>"
  obtain fm3 fI sI where e:
    "expand_indir 0 (fm1[s := True]) (firstIndir h) (secondIndir h) (usub ?is 1) ns1 = (fm3, fI, sI)"
    by (metis prod_cases3)
  have "0 < ?R" using gt old by simp
  then have Kp: "0 < DivRoundUp ?R 32" by (rule DivRoundUp_32_pos)
  then have K: "0 < usub ?is 1" using isv by (simp add: usub_def)
  have Kv: "usub ?is 1 = DivRoundUp ?R 32" using isv by (simp add: usub_def)
  have "Expand_claim freeMap h newBytes ?ns ?is = (fm3, ?h3\<lparr>firstIndir := fI, secondIndir := sI\<rparr>)"
    unfolding Expand_claim_def Let_def w1 w2
    using d f e K gt direct by (cases "?old < 29") (simp_all add: m, simp_all add: NUM_DIRECT_val)
  with c res have r: "fm' = fm3" "h' = ?h3\<lparr>firstIndir := fI, secondIndir := sI\<rparr>" by simp_all
  have k2: "marks_kept fm1 (fm1[s := True])" using f by (rule marks_kept_Find)
  have k3: "marks_kept (fm1[s := True]) fm3" using e by (rule expand_indir_marks_kept)
  have kept: "marks_kept freeMap fm'"
    unfolding r using marks_kept_trans [OF k1 marks_kept_trans [OF k2 k3]] .
  have nb': "numBytes h' = numBytes h + newBytes" using r by simp
  have ns': "numSectors h' = DivRoundUp (numBytes h + newBytes) SECTOR_SIZE"
    using r ar(3) by simp
  have count: "CountClear fm' + (numSectors h' - numSectors h)
              + DivRoundUp (numSectors h' - NUM_DIRECT) NUM_INDIRECT + 1 = CountClear freeMap"
    if tu: "tables_unused h" and sz: "numBytes h + newBytes \<le> (NUM_DIRECT + NUM_INDIRECT * NUM_INDIRECT) * SECTOR_SIZE"
  proof -
    have t1: "\<And>i'. 0 \<le> i' \<Longrightarrow> i' < 32 \<Longrightarrow> firstIndir h ! i' = - 1"
      using tu by (simp add: tables_unused_def NUM_INDIRECT_val)
    have t2: "\<And>i' j. 0 \<le> i' \<Longrightarrow> i' < 32 \<Longrightarrow> j < 32 \<Longrightarrow> secondIndir h ! i' ! j = - 1"
      using tu by (simp add: tables_unused_def NUM_INDIRECT_val)
    have "numBytes h + newBytes \<le> 128 * 1053"
      using sz by (simp add: NUM_DIRECT_val NUM_INDIRECT_val SECTOR_SIZE_def)
    then have "DivRoundUp (numBytes h + newBytes) 128 \<le> DivRoundUp (128 * 1053) 128"
      by (rule DivRoundUp_mono)
    then have "?old + ?ns \<le> 1053"
      using ar(3) unfolding DivRoundUp_exact by (simp add: SECTOR_SIZE_def)
    then have "?R \<le> 32 * 32" by simp
    then have "DivRoundUp ?R 32 \<le> DivRoundUp (32 * 32) 32"
      by (rule DivRoundUp_32_mono)
    then have Kb: "DivRoundUp ?R 32 \<le> 32 - 0" by (simp add: DivRoundUp_def)
    have sp: "DivRoundUp ?R 32 + ?R \<le> CountClear (fm1[s := True])"
      using e2 c1a cs old gt by linarith
    from expand_indir_count [OF t1 t2 refl Kb sp] e
    have c3: "CountClear fm3 + (DivRoundUp ?R 32 + ?R) = CountClear (fm1[s := True])"
      unfolding Kv ns1 by auto
    have "CountClear fm3 + ?ns + DivRoundUp ?R 32 + 1 = CountClear freeMap"
      using c3 cs c1a old gt by linarith
    then show ?thesis
      using r by (simp add: NUM_DIRECT_val NUM_INDIRECT_val)
  qed
  have upper: "CountClear freeMap
             \<le> CountClear fm' + (numSectors h' - numSectors h)
                 + DivRoundUp (numSectors h' - NUM_DIRECT) NUM_INDIRECT + 1"
  proof -
    from expand_indir_at_most [OF e]
    have "CountClear (fm1[s := True]) \<le> CountClear fm3 + (DivRoundUp ?R 32 + ?R)"
      unfolding Kv ns1 .
    then have "CountClear freeMap \<le> CountClear fm3 + ?ns + DivRoundUp ?R 32 + 1"
      using cs c1a old gt by linarith
    then show ?thesis
      using r by (simp add: NUM_DIRECT_val NUM_INDIRECT_val)
  qed
  show ?thesis
    using nb' ns' kept upper count by blast
qed

text \<open>
  C6.  For a header that satisfies the laws of the data model and a growth by \<open>newBytes > 0\<close>
  that keeps the size below \<open>2^32\<close>:
  \<^enum> a growth that fits in the free space of the last sector succeeds, claims no sector
    (the free map is returned as it was) and changes nothing in the header but \<open>numBytes\<close>;
  \<^enum> a growth that brings \<open>numBytes\<close> to exactly \<open>MAX_DIRECT_SIZE\<close> fails without any
    change when fewer than \<open>NUM_DIRECT - numSectors\<close> sectors are clear, and otherwise
    claims exactly that many sectors, all stored in \<open>dataSectors\<close>: \<open>indirSector\<close> stays
    the sentinel and the indirect tables are untouched;
  \<^enum> a growth of a header without single-indirect sector across \<open>MAX_DIRECT_SIZE\<close> needs
    the new data sectors, one first-indirect sector for every \<open>NUM_INDIRECT\<close> data sectors
    beyond the direct ones, and one sector more, the single-indirect one.  With fewer
    clear sectors it fails without any change; otherwise it succeeds.  When it succeeds,
    \<open>indirSector\<close> is a sector that was clear before the call and is marked after it, no
    marked sector is cleared, and the call claims at most the number of sectors above;
    it claims exactly that number when the tables of the header held the sentinel in every
    slot and the new size is within the \<open>NUM_DIRECT + NUM_INDIRECT * NUM_INDIRECT\<close> sectors a
    header can address: so the single-indirect sector is claimed once.  No later
    \<^verbatim>\<open>Expand\<close> of the resulting header changes \<open>indirSector\<close> again.
\<close>

theorem Expand_edge_cases:
  assumes laws: "header_laws h" and pos: "0 < newBytes"
    and nowrap: "numBytes h + newBytes < 2 ^ 32"
  shows "(newBytes \<le> onLastSector h \<longrightarrow>
            Expand freeMap h newBytes
              = Inr (True, freeMap, h\<lparr>numBytes := numBytes h + newBytes\<rparr>))
       \<and> (numBytes h + newBytes = MAX_DIRECT_SIZE \<longrightarrow>
            indirSector h = - 1
          \<and> (CountClear freeMap < NUM_DIRECT - numSectors h \<longrightarrow>
                Expand freeMap h newBytes = Inr (False, freeMap, h))
          \<and> (NUM_DIRECT - numSectors h \<le> CountClear freeMap \<longrightarrow>
               (\<exists>fm' ds. Expand freeMap h newBytes =
                    Inr (True, fm', h\<lparr>numBytes := MAX_DIRECT_SIZE, numSectors := NUM_DIRECT,
                                      dataSectors := ds\<rparr>)
                  \<and> marks_kept freeMap fm'
                  \<and> CountClear fm' + (NUM_DIRECT - numSectors h) = CountClear freeMap)))
       \<and> (indirSector h = - 1 \<and> MAX_DIRECT_SIZE < numBytes h + newBytes \<longrightarrow>
            (CountClear freeMap
               < DivRoundUp (numBytes h + newBytes) SECTOR_SIZE - numSectors h
                 + DivRoundUp (DivRoundUp (numBytes h + newBytes) SECTOR_SIZE - NUM_DIRECT)
                     NUM_INDIRECT
                 + 1
             \<longrightarrow> Expand freeMap h newBytes = Inr (False, freeMap, h))
          \<and> (DivRoundUp (numBytes h + newBytes) SECTOR_SIZE - numSectors h
                 + DivRoundUp (DivRoundUp (numBytes h + newBytes) SECTOR_SIZE - NUM_DIRECT)
                     NUM_INDIRECT
                 + 1 \<le> CountClear freeMap
             \<longrightarrow> (\<exists>fm' h'. Expand freeMap h newBytes = Inr (True, fm', h')))
          \<and> (\<forall>fm' h'. Expand freeMap h newBytes = Inr (True, fm', h') \<longrightarrow>
               (\<exists>s. indirSector h' = int s \<and> s < length freeMap \<and> \<not> freeMap ! s \<and> fm' ! s)
             \<and> numBytes h' = numBytes h + newBytes
             \<and> numSectors h' = DivRoundUp (numBytes h + newBytes) SECTOR_SIZE
             \<and> marks_kept freeMap fm'
             \<and> CountClear freeMap
                   \<le> CountClear fm' + (numSectors h' - numSectors h)
                       + DivRoundUp (numSectors h' - NUM_DIRECT) NUM_INDIRECT + 1
             \<and> (tables_unused h
                  \<and> numBytes h + newBytes \<le> (NUM_DIRECT + NUM_INDIRECT * NUM_INDIRECT) * SECTOR_SIZE
                  \<longrightarrow> CountClear fm' + (numSectors h' - numSectors h)
                       + DivRoundUp (numSectors h' - NUM_DIRECT) NUM_INDIRECT + 1
                     = CountClear freeMap)
             \<and> (\<forall>fm2 nb2 b fm3 h''. Expand fm2 h' nb2 = Inr (b, fm3, h'')
                    \<longrightarrow> indirSector h'' = indirSector h')))"
proof -
  have one: "newBytes \<le> onLastSector h \<longrightarrow>
            Expand freeMap h newBytes
              = Inr (True, freeMap, h\<lparr>numBytes := numBytes h + newBytes\<rparr>)"
    using Expand_within_last_sector [OF laws pos _ nowrap] by blast
  have two: "numBytes h + newBytes = MAX_DIRECT_SIZE \<longrightarrow>
            indirSector h = - 1
          \<and> (CountClear freeMap < NUM_DIRECT - numSectors h \<longrightarrow>
                Expand freeMap h newBytes = Inr (False, freeMap, h))
          \<and> (NUM_DIRECT - numSectors h \<le> CountClear freeMap \<longrightarrow>
               (\<exists>fm' ds. Expand freeMap h newBytes =
                    Inr (True, fm', h\<lparr>numBytes := MAX_DIRECT_SIZE, numSectors := NUM_DIRECT,
                                      dataSectors := ds\<rparr>)
                  \<and> marks_kept freeMap fm'
                  \<and> CountClear fm' + (NUM_DIRECT - numSectors h) = CountClear freeMap))"
  proof
    assume l: "numBytes h + newBytes = MAX_DIRECT_SIZE"
    from Expand_to_direct_limit [OF laws pos l, of freeMap]
    show "indirSector h = - 1
          \<and> (CountClear freeMap < NUM_DIRECT - numSectors h \<longrightarrow>
                Expand freeMap h newBytes = Inr (False, freeMap, h))
          \<and> (NUM_DIRECT - numSectors h \<le> CountClear freeMap \<longrightarrow>
               (\<exists>fm' ds. Expand freeMap h newBytes =
                    Inr (True, fm', h\<lparr>numBytes := MAX_DIRECT_SIZE, numSectors := NUM_DIRECT,
                                      dataSectors := ds\<rparr>)
                  \<and> marks_kept freeMap fm'
                  \<and> CountClear fm' + (NUM_DIRECT - numSectors h) = CountClear freeMap))"
      by simp
  qed
  have three: "indirSector h = - 1 \<and> MAX_DIRECT_SIZE < numBytes h + newBytes \<longrightarrow>
            (CountClear freeMap
               < DivRoundUp (numBytes h + newBytes) SECTOR_SIZE - numSectors h
                 + DivRoundUp (DivRoundUp (numBytes h + newBytes) SECTOR_SIZE - NUM_DIRECT)
                     NUM_INDIRECT
                 + 1
             \<longrightarrow> Expand freeMap h newBytes = Inr (False, freeMap, h))
          \<and> (DivRoundUp (numBytes h + newBytes) SECTOR_SIZE - numSectors h
                 + DivRoundUp (DivRoundUp (numBytes h + newBytes) SECTOR_SIZE - NUM_DIRECT)
                     NUM_INDIRECT
                 + 1 \<le> CountClear freeMap
             \<longrightarrow> (\<exists>fm' h'. Expand freeMap h newBytes = Inr (True, fm', h')))
          \<and> (\<forall>fm' h'. Expand freeMap h newBytes = Inr (True, fm', h') \<longrightarrow>
               (\<exists>s. indirSector h' = int s \<and> s < length freeMap \<and> \<not> freeMap ! s \<and> fm' ! s)
             \<and> numBytes h' = numBytes h + newBytes
             \<and> numSectors h' = DivRoundUp (numBytes h + newBytes) SECTOR_SIZE
             \<and> marks_kept freeMap fm'
             \<and> CountClear freeMap
                   \<le> CountClear fm' + (numSectors h' - numSectors h)
                       + DivRoundUp (numSectors h' - NUM_DIRECT) NUM_INDIRECT + 1
             \<and> (tables_unused h
                  \<and> numBytes h + newBytes \<le> (NUM_DIRECT + NUM_INDIRECT * NUM_INDIRECT) * SECTOR_SIZE
                  \<longrightarrow> CountClear fm' + (numSectors h' - numSectors h)
                       + DivRoundUp (numSectors h' - NUM_DIRECT) NUM_INDIRECT + 1
                     = CountClear freeMap)
             \<and> (\<forall>fm2 nb2 b fm3 h''. Expand fm2 h' nb2 = Inr (b, fm3, h'')
                    \<longrightarrow> indirSector h'' = indirSector h'))"
  proof (intro impI conjI allI)
    assume dc: "indirSector h = - 1 \<and> MAX_DIRECT_SIZE < numBytes h + newBytes"
    then have d: "indirSector h = - 1" and c: "MAX_DIRECT_SIZE < numBytes h + newBytes"
      by simp_all
    note sp = Expand_crossing_space [OF laws pos nowrap d c, of freeMap]
    {
      assume "CountClear freeMap
               < DivRoundUp (numBytes h + newBytes) SECTOR_SIZE - numSectors h
                 + DivRoundUp (DivRoundUp (numBytes h + newBytes) SECTOR_SIZE - NUM_DIRECT)
                     NUM_INDIRECT
                 + 1"
      with sp show "Expand freeMap h newBytes = Inr (False, freeMap, h)" by blast
    }
    {
      assume "DivRoundUp (numBytes h + newBytes) SECTOR_SIZE - numSectors h
                 + DivRoundUp (DivRoundUp (numBytes h + newBytes) SECTOR_SIZE - NUM_DIRECT)
                     NUM_INDIRECT
                 + 1 \<le> CountClear freeMap"
      with sp show "\<exists>fm' h'. Expand freeMap h newBytes = Inr (True, fm', h')" by blast
    }
    fix fm' h'
    assume ok: "Expand freeMap h newBytes = Inr (True, fm', h')"
    note cr = Expand_crossing [OF laws pos nowrap d c ok]
    note cn = Expand_crossing_count [OF laws pos nowrap d c ok]
    show "\<exists>s. indirSector h' = int s \<and> s < length freeMap \<and> \<not> freeMap ! s \<and> fm' ! s"
      by (rule cr)
    show "numBytes h' = numBytes h + newBytes" using cn by (rule conjunct1)
    show "numSectors h' = DivRoundUp (numBytes h + newBytes) SECTOR_SIZE"
      using cn by (rule conjunct1 [OF conjunct2])
    show "marks_kept freeMap fm'"
      using cn by (rule conjunct1 [OF conjunct2 [OF conjunct2]])
    show "CountClear freeMap
                   \<le> CountClear fm' + (numSectors h' - numSectors h)
                       + DivRoundUp (numSectors h' - NUM_DIRECT) NUM_INDIRECT + 1"
      using cn by (rule conjunct1 [OF conjunct2 [OF conjunct2 [OF conjunct2]]])
    {
      assume "tables_unused h
                  \<and> numBytes h + newBytes \<le> (NUM_DIRECT + NUM_INDIRECT * NUM_INDIRECT) * SECTOR_SIZE"
      with cn show "CountClear fm' + (numSectors h' - numSectors h)
                       + DivRoundUp (numSectors h' - NUM_DIRECT) NUM_INDIRECT + 1
                     = CountClear freeMap" by blast
    }
    fix fm2 nb2 b fm3 h''
    assume later: "Expand fm2 h' nb2 = Inr (b, fm3, h'')"
    from cr have "indirSector h' \<noteq> - 1" by auto
    from Expand_keeps_indirSector [OF this later] show "indirSector h'' = indirSector h'" .
  qed
  show ?thesis
    apply (intro conjI)
      apply (rule one)
     apply (rule two)
    apply (rule three)
    done
qed

lemma direct_header_3700_laws: "header_laws direct_header_3700"
  by (simp add: header_laws_def direct_header_3700_def fresh_header_def DivRoundUp_def
        SECTOR_SIZE_def NUM_DIRECT_val)

lemma Expand_3700_by_13:
  "Expand (prefix_marked 31 9) direct_header_3700 13
     = Inr (True, prefix_marked 34 6, crossed_header_3713)"
proof -
  let ?h = direct_header_3700
  have nb: "numBytes ?h = 3700" and ind: "indirSector ?h = - 1" and ns: "numSectors ?h = 29"
    and fI: "firstIndir ?h = replicate 32 (- 1)"
    and sI: "secondIndir ?h = replicate 32 (replicate 32 (- 1))"
    by (simp_all add: direct_header_3700_def fresh_header_def NUM_INDIRECT_val)
  have last: "onLastSector ?h = 12" by (simp add: onLastSector_def nb SECTOR_SIZE_def)
  have n13: "Expand_newSectors ?h 13 = Suc 0"
    by (simp add: Expand_newSectors_def last DivRoundUp_def SECTOR_SIZE_def)
  have i13: "Expand_indirSectors ?h 13 (Suc 0) = 2"
    by (simp add: Expand_indirSectors_def ind nb ns u32_def usub_def MAX_DIRECT_SIZE_val
          NUM_DIRECT_val NUM_INDIRECT_val DivRoundUp_def)
  have f1: "Bitmap_Find (prefix_marked 31 9) = (31, prefix_marked 32 8)"
    and f2: "Bitmap_Find (prefix_marked 32 8) = (32, prefix_marked 33 7)"
    and f3: "Bitmap_Find (prefix_marked 33 7) = (33, prefix_marked 34 6)"
    by (simp_all add: Bitmap_Find_prefix_marked)
  have row: "expand_row 0 (prefix_marked 33 7) (replicate 32 (- 1)) (Suc 0)
               = (prefix_marked 34 6, (replicate 32 (- 1))[0 := 33], 0)"
    apply (subst expand_row.simps)
    apply (simp add: NUM_INDIRECT_val f3 usub_def)
    apply (subst expand_row.simps)
    apply simp
    done
  have indir: "expand_indir 0 (prefix_marked 32 8) (replicate 32 (- 1))
                 (replicate 32 (replicate 32 (- 1))) (Suc 0) (Suc 0)
               = (prefix_marked 34 6, (replicate 32 (- 1))[0 := 32],
                  (replicate 32 (replicate 32 (- 1)))[0 := (replicate 32 (- 1))[0 := 33]])"
    apply (subst expand_indir.simps)
    apply (simp add: NUM_INDIRECT_val f2 usub_def row)
    apply (subst expand_indir.simps)
    apply simp
    done
  have claim: "Expand_claim (prefix_marked 31 9) ?h 13 (Suc 0) 2
                 = (prefix_marked 34 6, crossed_header_3713)"
    by (simp add: Expand_claim_def Let_def nb ns ind fI sI u32_def NUM_DIRECT_val f1 usub_def
        indir crossed_header_3713_def NUM_INDIRECT_val)
  show ?thesis
    by (simp add: Expand_def Let_def n13 i13 claim u32_def)
qed

text \<open>
  The header of 3700 bytes grown by 12 bytes (within the last sector, to exactly the direct
  limit) and by 13 bytes (across the limit): with two clear sectors the second growth fails,
  with nine it claims sectors 31, 32 and 33.
\<close>

theorem Expand_edge_cases_witness:
  "header_laws direct_header_3700 \<and> tables_unused direct_header_3700
   \<and> Expand (prefix_marked 31 9) direct_header_3700 12
       = Inr (True, prefix_marked 31 9, direct_header_3700\<lparr>numBytes := 3712\<rparr>)
   \<and> Expand (prefix_marked 31 2) direct_header_3700 13
       = Inr (False, prefix_marked 31 2, direct_header_3700)
   \<and> Expand (prefix_marked 31 9) direct_header_3700 13
       = Inr (True, prefix_marked 34 6, crossed_header_3713)
   \<and> indirSector crossed_header_3713 = 31
   \<and> \<not> prefix_marked 31 9 ! 31 \<and> prefix_marked 34 6 ! 31
   \<and> CountClear (prefix_marked 34 6) + 3 = CountClear (prefix_marked 31 9)
   \<and> (\<exists>s. indirSector crossed_header_3713 = int s \<and> s < length (prefix_marked 31 9)
          \<and> \<not> prefix_marked 31 9 ! s \<and> prefix_marked 34 6 ! s)"
proof -
  let ?h = direct_header_3700 and ?fm = "prefix_marked 31 9"
  note laws = direct_header_3700_laws
  have tu: "tables_unused ?h"
    by (simp add: tables_unused_def direct_header_3700_def fresh_header_def)
  have nb: "numBytes ?h = 3700" and ind: "indirSector ?h = - 1" and ns: "numSectors ?h = 29"
    by (simp_all add: direct_header_3700_def fresh_header_def)
  have last: "onLastSector ?h = 12" by (simp add: onLastSector_def nb SECTOR_SIZE_def)
  have p12: "0 < (12::nat)" and w12: "numBytes ?h + 12 < 2 ^ 32" by (simp_all add: nb)
  have p13: "0 < (13::nat)" and w13: "numBytes ?h + 13 < 2 ^ 32" by (simp_all add: nb)
  have "12 \<le> onLastSector ?h \<longrightarrow>
          Expand ?fm ?h 12 = Inr (True, ?fm, ?h\<lparr>numBytes := numBytes ?h + 12\<rparr>)"
    using Expand_edge_cases [OF laws p12 w12, of ?fm] by (rule conjunct1)
  then have a: "Expand ?fm ?h 12 = Inr (True, ?fm, ?h\<lparr>numBytes := 3712\<rparr>)"
    by (simp add: last nb)
  have cross: "indirSector ?h = - 1 \<and> MAX_DIRECT_SIZE < numBytes ?h + 13"
    by (simp add: ind nb MAX_DIRECT_SIZE_val)
  have sectors: "DivRoundUp (numBytes ?h + 13) SECTOR_SIZE = 30"
    by (simp add: nb DivRoundUp_def SECTOR_SIZE_def)
  have need: "DivRoundUp (numBytes ?h + 13) SECTOR_SIZE - numSectors ?h
                 + DivRoundUp (DivRoundUp (numBytes ?h + 13) SECTOR_SIZE - NUM_DIRECT)
                     NUM_INDIRECT
                 + 1 = 3"
    unfolding sectors by (simp add: ns NUM_DIRECT_val NUM_INDIRECT_val DivRoundUp_def)
  note t2 = conjunct2 [OF conjunct2 [OF Expand_edge_cases [OF laws p13 w13, of "prefix_marked 31 2"]]]
  note t9 = conjunct2 [OF conjunct2 [OF Expand_edge_cases [OF laws p13 w13, of ?fm]]]
  have "CountClear (prefix_marked 31 2) < 3 \<longrightarrow>
          Expand (prefix_marked 31 2) ?h 13 = Inr (False, prefix_marked 31 2, ?h)"
    using conjunct1 [OF t2 [rule_format, OF cross]] unfolding need .
  then have b: "Expand (prefix_marked 31 2) ?h 13 = Inr (False, prefix_marked 31 2, ?h)"
    by simp
  note ok = Expand_3700_by_13
  note all = conjunct2 [OF conjunct2 [OF t9 [rule_format, OF cross]]]
  note res = all [rule_format, OF ok]
  have s: "\<exists>s. indirSector crossed_header_3713 = int s \<and> s < length ?fm
          \<and> \<not> ?fm ! s \<and> prefix_marked 34 6 ! s"
    using res by (rule conjunct1)
  have sz: "tables_unused ?h
             \<and> numBytes ?h + 13 \<le> (NUM_DIRECT + NUM_INDIRECT * NUM_INDIRECT) * SECTOR_SIZE"
    using tu by (simp add: nb NUM_DIRECT_val NUM_INDIRECT_val SECTOR_SIZE_def)
  have cnt: "tables_unused ?h
                  \<and> numBytes ?h + 13 \<le> (NUM_DIRECT + NUM_INDIRECT * NUM_INDIRECT) * SECTOR_SIZE
                  \<longrightarrow> CountClear (prefix_marked 34 6)
                       + (numSectors crossed_header_3713 - numSectors ?h)
                       + DivRoundUp (numSectors crossed_header_3713 - NUM_DIRECT) NUM_INDIRECT + 1
                     = CountClear ?fm"
    using res by (rule conjunct1 [OF conjunct2 [OF conjunct2 [OF conjunct2 [OF conjunct2
            [OF conjunct2]]]]])
  have n30: "numSectors crossed_header_3713 = 30"
    and i31: "indirSector crossed_header_3713 = 31"
    by (simp_all add: crossed_header_3713_def)
  have "CountClear (prefix_marked 34 6) + (30 - numSectors ?h)
           + DivRoundUp (30 - NUM_DIRECT) NUM_INDIRECT + 1 = CountClear ?fm"
    using cnt sz unfolding n30 by blast
  then have c: "CountClear (prefix_marked 34 6) + 3 = CountClear ?fm"
    by (simp add: ns NUM_DIRECT_val NUM_INDIRECT_val DivRoundUp_def)
  have m1: "\<not> ?fm ! 31" by (simp add: prefix_marked_def nth_append)
  have m2: "prefix_marked 34 6 ! 31" by (simp add: prefix_marked_def nth_append)
  show ?thesis
    apply (intro conjI)
            apply (rule laws)
           apply (rule tu)
          apply (rule a)
         apply (rule b)
        apply (rule ok)
       apply (rule i31)
      apply (rule m1)
     apply (rule m2)
    apply (rule c)
    apply (rule s)
    done
qed

section \<open>\<^verbatim>\<open>Allocate\<close> and \<^verbatim>\<open>Expand\<close> on a file of 3840 bytes\<close>

lemma Bitmap_Find_prefix_marked_num:
  "0 < m \<Longrightarrow> Bitmap_Find (prefix_marked k m) = (int k, prefix_marked (k + 1) (m - 1))"
  by (simp add: Bitmap_Find_prefix_marked)

lemma alloc_direct_unroll:
  "alloc_direct i n fm ds =
     (if i < n then
        (case Bitmap_Find fm of (s, fm') \<Rightarrow> alloc_direct (i + 1) n fm' (ds[i := to_unsigned s]))
      else (fm, ds))"
  by (subst alloc_direct.simps) simp

lemma alloc_row_unroll:
  "alloc_row j fm row sectorsLeft =
     (if j < 32 then
        (if sectorsLeft > 0 then
           (case Bitmap_Find fm of (s, fm') \<Rightarrow>
              alloc_row (j + 1) fm' (row[j := s]) (sectorsLeft - 1))
         else alloc_row (j + 1) fm (row[j := - 1]) sectorsLeft)
      else (fm, row, sectorsLeft))"
  by (subst alloc_row.simps) (simp add: NUM_INDIRECT_val)

lemma alloc_indir_unroll:
  "alloc_indir i indirSectors fm fI sI sectorsLeft =
     (if i < 32 then
        (if i < indirSectors then
           (case Bitmap_Find fm of (s, fm1) \<Rightarrow>
             (case alloc_row 0 fm1 (sI ! i) sectorsLeft of (fm2, row, sl) \<Rightarrow>
                alloc_indir (i + 1) indirSectors fm2 (fI[i := s]) (sI[i := row]) sl))
         else
           alloc_indir (i + 1) indirSectors fm (fI[i := - 1])
             (sI[i := replicate 32 (- 1)]) sectorsLeft)
      else (fm, fI, sI))"
  by (subst alloc_indir.simps) (simp add: NUM_INDIRECT_val)

lemma Allocate_3840_of_40:
  "\<exists>h. Allocate (prefix_marked 0 40) fresh_header 3840 = (True, prefix_marked 33 7, h)
      \<and> numBytes h = 3840 \<and> numSectors h = 30 \<and> indirSector h = 29
      \<and> firstIndir h ! 0 = 30 \<and> firstIndir h ! 1 = 32
      \<and> secondIndir h ! 0 ! 0 = 31 \<and> secondIndir h ! 0 ! 1 = - 1
      \<and> length (secondIndir h) = 32 \<and> length (secondIndir h ! 0) = 32"
  apply (simp add: Allocate_def Allocate_indirSectors_def Let_def DivRoundUp_def SECTOR_SIZE_def
      MAX_DIRECT_SIZE_val NUM_DIRECT_val NUM_INDIRECT_val u32_def usub_def fresh_header_def)
  apply (simp add: alloc_direct_unroll alloc_indir_unroll alloc_row_unroll
      Bitmap_Find_prefix_marked_num to_unsigned_def)
  apply (simp add: eval_nat_numeral)
  done

lemma replicate_update_same [simp]: "(replicate n x)[i := x] = replicate n x"
proof (cases "i < n")
  case True
  then show ?thesis by (auto simp add: list_eq_iff_nth_eq nth_list_update)
next
  case False
  then have "length (replicate n x) \<le> i" by simp
  then show ?thesis by (rule list_update_beyond)
qed

lemma Allocate_3840_of_33:
  "\<exists>h. Allocate (prefix_marked 0 33) fresh_header 3840 = (True, prefix_marked 33 0, h)
      \<and> numSectors h = 30 \<and> indirSector h = 29
      \<and> firstIndir h ! 0 = 30 \<and> firstIndir h ! 1 = 32
      \<and> secondIndir h ! 0 ! 0 = 31 \<and> secondIndir h ! 1 = replicate 32 (- 1)"
  apply (simp add: Allocate_def Allocate_indirSectors_def Let_def DivRoundUp_def SECTOR_SIZE_def
      MAX_DIRECT_SIZE_val NUM_DIRECT_val NUM_INDIRECT_val u32_def usub_def fresh_header_def)
  apply (simp add: alloc_direct_unroll alloc_indir_unroll alloc_row_unroll
      Bitmap_Find_prefix_marked_num to_unsigned_def)
  apply (simp add: eval_nat_numeral)
  done

lemma Allocate_3840_of_32:
  "Allocate (prefix_marked 0 32) fresh_header 3840
     = (False, prefix_marked 0 32, fresh_header\<lparr>numBytes := 3840, numSectors := 30\<rparr>)"
  by (simp add: Allocate_def Allocate_indirSectors_def Let_def DivRoundUp_def SECTOR_SIZE_def
      MAX_DIRECT_SIZE_val NUM_INDIRECT_val u32_def)

text \<open>
  C1 at \<open>fileSize = 3840\<close>.  The file needs 30 data sectors, hence one single-indirect
  sector and one first-indirect sector: 32 sectors.  With exactly 32 clear sectors
  \<^verbatim>\<open>Allocate\<close> returns \<open>false\<close> (the free map is unchanged).  With 33 clear sectors it
  succeeds and claims all 33: \<open>firstIndir[1]\<close> holds a second first-indirect sector whose
  row of \<open>secondIndir\<close> is empty.
\<close>

theorem Allocate_reserves_more_than_minimum:
  "DivRoundUp 3840 SECTOR_SIZE = 30
   \<and> DivRoundUp (30 - NUM_DIRECT) NUM_INDIRECT = 1
   \<and> Allocate (replicate 32 False) fresh_header 3840
       = (False, replicate 32 False, fresh_header\<lparr>numBytes := 3840, numSectors := 30\<rparr>)
   \<and> (case Allocate (replicate 33 False) fresh_header 3840 of
         (ok, fm, h) \<Rightarrow>
           ok \<and> CountClear fm = 0 \<and> numSectors h = 30
         \<and> firstIndir h ! 0 = 30 \<and> firstIndir h ! 1 = 32
         \<and> secondIndir h ! 1 = replicate 32 (- 1))"
proof -
  have a: "DivRoundUp 3840 SECTOR_SIZE = 30"
    by (simp add: DivRoundUp_def SECTOR_SIZE_def)
  have b: "DivRoundUp (30 - NUM_DIRECT) NUM_INDIRECT = 1"
    by (simp add: DivRoundUp_def NUM_DIRECT_val NUM_INDIRECT_val)
  have c: "Allocate (replicate 32 False) fresh_header 3840
       = (False, replicate 32 False, fresh_header\<lparr>numBytes := 3840, numSectors := 30\<rparr>)"
    using Allocate_3840_of_32 by (simp add: replicate_False_prefix_marked)
  from Allocate_3840_of_33 obtain h where
    "Allocate (replicate 33 False) fresh_header 3840 = (True, prefix_marked 33 0, h)"
    "numSectors h = 30" "firstIndir h ! 0 = 30" "firstIndir h ! 1 = 32"
    "secondIndir h ! 1 = replicate 32 (- 1)"
    by (auto simp: replicate_False_prefix_marked)
  then have d: "case Allocate (replicate 33 False) fresh_header 3840 of
         (ok, fm, h) \<Rightarrow>
           ok \<and> CountClear fm = 0 \<and> numSectors h = 30
         \<and> firstIndir h ! 0 = 30 \<and> firstIndir h ! 1 = 32
         \<and> secondIndir h ! 1 = replicate 32 (- 1)"
    by simp
  from a b c d show ?thesis by blast
qed

text \<open>
  When the header has a single-indirect sector and the growth needs no more new sectors than
  there are used slots in the last indirect row, \<^verbatim>\<open>Expand\<close> computes \<open>indirSectors = 0\<close>,
  skips the loop over the indirect tables and claims nothing, although \<open>numSectors\<close> grows.
\<close>

lemma Expand_claims_nothing:
  assumes ind: "indirSector h \<noteq> - 1" and big: "NUM_DIRECT \<le> numSectors h"
    and pos: "0 < newBytes"
    and few: "Expand_newSectors h newBytes \<le> (numSectors h - NUM_DIRECT) mod NUM_INDIRECT"
    and space: "Expand_newSectors h newBytes \<le> CountClear freeMap"
    and nowrap: "numBytes h + newBytes < 2 ^ 32"
                "numSectors h + Expand_newSectors h newBytes < 2 ^ 32"
  shows "Expand freeMap h newBytes =
           Inr (True, freeMap,
                h\<lparr>numBytes := numBytes h + newBytes,
                   numSectors := numSectors h + Expand_newSectors h newBytes\<rparr>)"
proof -
  let ?ns = "Expand_newSectors h newBytes"
  have u0: "usub (numSectors h) NUM_DIRECT = numSectors h - NUM_DIRECT"
    using big by (simp add: usub_def)
  have is0: "Expand_indirSectors h newBytes ?ns = 0"
    using ind few u0 by (simp add: Expand_indirSectors_def Let_def)
  have u1: "u32 (numBytes h + newBytes) = numBytes h + newBytes"
    and u2: "u32 (numSectors h + ?ns) = numSectors h + ?ns"
    using nowrap by (simp_all add: u32_def)
  have u3: "u32 (?ns + 0) = ?ns" using nowrap(2) by (simp add: u32_def)
  have claim: "Expand_claim freeMap h newBytes ?ns 0 =
     (freeMap, h\<lparr>numBytes := numBytes h + newBytes, numSectors := numSectors h + ?ns\<rparr>)"
    unfolding Expand_claim_def Let_def u1 u2
    using ind big by simp
  show ?thesis
    using pos is0 u3 space claim by (simp add: Expand_def Let_def)
qed

text \<open>
  C2 at a header produced by \<^verbatim>\<open>Allocate\<close> for 3840 bytes (30 sectors) and then grown by
  \<^verbatim>\<open>Expand\<close> by 128 bytes.  Both calls succeed; the second one leaves the free map as it
  was and sets \<open>numSectors = 31\<close>, and \<^verbatim>\<open>ByteToSector(30 * SECTOR_SIZE)\<close> is the sentinel
  \<open>-1\<close> read as \<^verbatim>\<open>unsigned\<close>, not a sector of the file.
\<close>

theorem Expand_leaves_sector_unclaimed:
  "(case Allocate (replicate 40 False) fresh_header 3840 of
      (ok, fm, h) \<Rightarrow>
        ok \<and> numSectors h = 30
      \<and> (case Expand fm h 128 of
            Inl e \<Rightarrow> False
          | Inr (ok', fm', h') \<Rightarrow>
              ok' \<and> fm' = fm \<and> numBytes h' = 3968 \<and> numSectors h' = 31
            \<and> ByteToSector h' (30 * SECTOR_SIZE) = Some 4294967295))"
proof -
  from Allocate_3840_of_40 obtain h where
    al: "Allocate (replicate 40 False) fresh_header 3840 = (True, prefix_marked 33 7, h)"
    and nb: "numBytes h = 3840" and ns: "numSectors h = 30" and ind: "indirSector h = 29"
    and slot: "secondIndir h ! 0 ! 1 = - 1"
    and len: "length (secondIndir h) = 32" "length (secondIndir h ! 0) = 32"
    by (auto simp: replicate_False_prefix_marked)
  let ?fm = "prefix_marked 33 7"
  have new: "Expand_newSectors h 128 = 1"
    by (simp add: Expand_newSectors_def onLastSector_def nb SECTOR_SIZE_def DivRoundUp_def)
  have ex: "Expand ?fm h 128 = Inr (True, ?fm, h\<lparr>numBytes := 3968, numSectors := 31\<rparr>)"
    using Expand_claims_nothing[of h 128 ?fm] new nb ns ind
    by (simp add: NUM_DIRECT_val NUM_INDIRECT_val)
  have bs: "ByteToSector (h\<lparr>numBytes := 3968, numSectors := 31\<rparr>) (30 * SECTOR_SIZE)
              = Some 4294967295"
    using slot len
    by (simp add: ByteToSector_def Let_def SECTOR_SIZE_def NUM_DIRECT_val NUM_INDIRECT_val
          to_unsigned_def)
  from al ns ex bs show ?thesis by simp
qed

section \<open>Formatting the disk\<close>

lemma alloc_direct_0_0 [simp]: "alloc_direct 0 0 fm ds = (fm, ds)"
  by (subst alloc_direct.simps) simp

lemma Allocate_map_header:
  "Allocate (prefix_marked 2 126) fresh_header 16 = (True, prefix_marked 3 125, map_header)"
  apply (simp add: Allocate_def Allocate_indirSectors_def Let_def DivRoundUp_def SECTOR_SIZE_def
      MAX_DIRECT_SIZE_val NUM_DIRECT_val NUM_INDIRECT_val u32_def usub_def fresh_header_def
      map_header_def)
  apply (simp add: alloc_direct_unroll Bitmap_Find_prefix_marked_num to_unsigned_def)
  apply (simp add: eval_nat_numeral)?
  done

lemma Allocate_root_header:
  "Allocate (prefix_marked 3 125) fresh_header 320 = (True, prefix_marked 6 122, root_header)"
  apply (simp add: Allocate_def Allocate_indirSectors_def Let_def DivRoundUp_def SECTOR_SIZE_def
      MAX_DIRECT_SIZE_val NUM_DIRECT_val NUM_INDIRECT_val u32_def usub_def fresh_header_def
      root_header_def)
  apply (simp add: alloc_direct_unroll Bitmap_Find_prefix_marked_num to_unsigned_def)
  apply (simp add: eval_nat_numeral)?
  done

lemma marked_two: "(replicate 128 False)[0 := True, Suc 0 := True] = prefix_marked 2 126"
  by (simp add: prefix_marked_def eval_nat_numeral)

lemma FileSystem_format_128: "FileSystem_format 128 blank_disk = Inr formatted_disk"
  by (simp add: FileSystem_format_def Let_def Bitmap_Mark_def FREE_MAP_SECTOR_def
        DIRECTORY_SECTOR_def marked_two Allocate_map_header DIRECTORY_FILE_SIZE_def
        ENTRY_SIZE_def NUM_DIR_ENTRIES_def Allocate_root_header Directory_WriteBack_def
        new_Directory_def blank_disk_def formatted_disk_def root_header_def fun_eq_iff)

lemma FindIndex_from_unused [simp]:
  "FindIndex_from i (replicate n unused_entry) nm = - 1"
  by (induction n arbitrary: i) (simp_all add: unused_entry_def)

lemma Allocate_swap_header:
  "Allocate (prefix_marked 7 121) fresh_header 250 = (True, prefix_marked 9 119, swap_header)"
  apply (simp add: Allocate_def Allocate_indirSectors_def Let_def DivRoundUp_def SECTOR_SIZE_def
      MAX_DIRECT_SIZE_val NUM_DIRECT_val NUM_INDIRECT_val u32_def usub_def fresh_header_def swap_header_def)
  apply (simp add: alloc_direct_unroll Bitmap_Find_prefix_marked_num to_unsigned_def)
  apply (simp add: eval_nat_numeral)?
  done

lemma root_table_formatted:
  "Directory_FetchFrom formatted_disk DIRECTORY_SECTOR root_header = Inr (replicate 10 unused_entry)"
  by (simp add: Directory_FetchFrom_def Let_def root_header_def ENTRY_SIZE_def formatted_disk_def
      map_replicate_const)

lemma formatted_root:
  "fsSynchList formatted_disk DIRECTORY_SECTOR = Some root_header"
  by (simp add: formatted_disk_def)

lemma formatted_map:
  "diskFreeMap formatted_disk = prefix_marked 6 122"
  by (simp add: formatted_disk_def)

lemma first_unused_replicate:
  "0 < n \<Longrightarrow> first_unused i (replicate n unused_entry) = Some i"
  by (cases n) (simp_all add: unused_entry_def)

lemma Add_first_slot:
  "Directory_Add st (replicate 10 unused_entry) nm sec d fm dsec
     = Inr (True, fill_entry (replicate 10 unused_entry) 0 nm sec d, fm, st)"
proof -
  have "first_unused 0 (replicate 10 unused_entry) = Some 0"
    by (rule first_unused_replicate) simp
  then show ?thesis by (simp add: Directory_Add_def FindIndex_def)
qed

lemma Create_swap_file:
  "Create_in formatted_disk DIRECTORY_SECTOR ''SWAP.0'' 250 False = Inr (True, swap_file_disk)"
  apply (simp add: Create_in_def formatted_root root_table_formatted formatted_map
       Directory_Find_def FindIndex_def Bitmap_Find_prefix_marked_num Add_first_slot
       Allocate_swap_header Let_def)
  apply (simp add: Directory_WriteBack_def root_header_def ENTRY_SIZE_def swap_file_disk_def)
  apply (simp add: formatted_disk_def fun_eq_iff fill_entry_def swap_entry_def unused_entry_def
      FILE_NAME_MAX_LEN_def DIRECTORY_SECTOR_def FREE_MAP_SECTOR_def)
  done

section \<open>Paths\<close>

lemma SplitPath_root_leaf:
  assumes "CHR ''/'' \<notin> set nm" and "nm \<noteq> []"
  shows "SplitPath (CHR ''/'' # nm) = Some (''/'', nm)"
proof -
  have l: "last (CHR ''/'' # nm) \<noteq> CHR ''/''"
    using assms by (metis last_ConsR last_in_set)
  have tw: "takeWhile (\<lambda>c. c \<noteq> CHR ''/'') (rev nm @ ''/'') = rev nm"
    using assms(1) by (subst takeWhile_append2) auto
  have k: "last_slash (CHR ''/'' # nm) = 0"
    by (simp add: last_slash_def tw)
  show ?thesis using l k by (simp add: SplitPath_def Let_def)
qed

lemma SplitPath_leaf:
  assumes "CHR ''/'' \<notin> set nm" and "nm \<noteq> []"
  shows "SplitPath nm = Some ([], nm)"
proof -
  have "last nm \<noteq> CHR ''/''" using assms by (metis last_in_set)
  then show ?thesis using assms by (simp add: SplitPath_def Let_def)
qed

lemma FindDirectory_root:
  "fsSynchList st DIRECTORY_SECTOR \<noteq> None \<Longrightarrow>
   FindDirectory st ''/'' = Inr (Some DIRECTORY_SECTOR, st)"
  by (simp add: FindDirectory_def Let_def)

lemma FindDirectory_current:
  "fsSynchList st (currentDir st) \<noteq> None \<Longrightarrow>
   FindDirectory st [] = Inr (Some (currentDir st), st)"
  by (simp add: FindDirectory_def Let_def)

lemma Create_in_fails_why:
  assumes "Create_in st dsec nm initialSize False = Inr (False, st')"
  shows "\<exists>dh dir. fsSynchList st dsec = Some dh \<and> Directory_FetchFrom st dsec dh = Inr dir
     \<and> (Directory_Find dir nm \<noteq> - 1
        \<or> fst (Bitmap_Find (diskFreeMap st)) = - 1
        \<or> (\<exists>dir' fm1 st1.
              Directory_Add st dir nm (nat (fst (Bitmap_Find (diskFreeMap st)))) False
                 (snd (Bitmap_Find (diskFreeMap st))) dsec = Inr (False, dir', fm1, st1))
        \<or> (\<exists>dir' fm1 st1.
              Directory_Add st dir nm (nat (fst (Bitmap_Find (diskFreeMap st)))) False
                 (snd (Bitmap_Find (diskFreeMap st))) dsec = Inr (True, dir', fm1, st1)
              \<and> fst (Allocate fm1 fresh_header initialSize) = False))"
proof -
  from assms obtain dh where dh: "fsSynchList st dsec = Some dh"
    by (auto simp: Create_in_def split: option.splits)
  from assms dh obtain dir where dir: "Directory_FetchFrom st dsec dh = Inr dir"
    by (auto simp: Create_in_def split: sum.splits)
  obtain s fm0 where f: "Bitmap_Find (diskFreeMap st) = (s, fm0)"
    by (cases "Bitmap_Find (diskFreeMap st)")
  show ?thesis
  proof (cases "Directory_Find dir nm \<noteq> - 1 \<or> s = - 1")
    case True
    with dh dir f show ?thesis by auto
  next
    case False
    with assms dh dir f obtain added dir' fm1 st1 where
      add: "Directory_Add st dir nm (nat s) False fm0 dsec = Inr (added, dir', fm1, st1)"
      by (auto simp: Create_in_def split: sum.splits)
    show ?thesis
    proof (cases added)
      case F2: False
      with dh dir f add show ?thesis by auto
    next
      case T2: True
      obtain ok fm3 h where al: "Allocate fm1 fresh_header initialSize = (ok, fm3, h)"
        by (metis prod_cases3)
      have "\<not> ok"
      proof
        assume ok
        with assms dh dir f False add T2 al show False
          by (auto simp: Create_in_def Let_def split: sum.splits option.splits)
      qed
      with dh dir f add T2 al show ?thesis by auto
    qed
  qed
qed

section \<open>A file on the formatted disk\<close>

lemma formatted_current:
  "currentDir formatted_disk = DIRECTORY_SECTOR"
  by (simp add: formatted_disk_def)

lemma swap_root:
  "fsSynchList swap_file_disk DIRECTORY_SECTOR = Some root_header"
  by (simp add: swap_file_disk_def formatted_disk_def)

lemma root_table_swap:
  "Directory_FetchFrom swap_file_disk DIRECTORY_SECTOR root_header
     = Inr (swap_entry # replicate 9 unused_entry)"
proof -
  have ten: "[0..<10] = 0 # map Suc [0..<9]"
    by (simp add: upt_conv_Cons map_Suc_upt del: upt_Suc)
  have "Directory_FetchFrom swap_file_disk DIRECTORY_SECTOR root_header
          = Inr (map (\<lambda>i. if i = 0 then swap_entry else unused_entry) [0..<10])"
    by (simp add: Directory_FetchFrom_def Let_def root_header_def ENTRY_SIZE_def
        swap_file_disk_def)
  also have "map (\<lambda>i. if i = 0 then swap_entry else unused_entry) [0..<10]
               = swap_entry # replicate 9 unused_entry"
    unfolding ten by (simp add: map_replicate_const o_def del: upt_Suc)
  finally show ?thesis .
qed

lemma FindIndex_swap:
  "FindIndex (swap_entry # replicate 9 unused_entry) ''SWAP.0'' = 0"
  by (simp add: FindIndex_def swap_entry_def strncmp_eq_def)

lemma Find_swap:
  "Directory_Find (swap_entry # replicate 9 unused_entry) ''SWAP.0'' = 6"
  by (simp add: Directory_Find_def FindIndex_swap Let_def) (simp add: swap_entry_def)


lemma Create_swap_file_again:
  "Create_in swap_file_disk DIRECTORY_SECTOR ''SWAP.0'' initialSize d = Inr (False, swap_file_disk)"
  by (simp add: Create_in_def swap_root root_table_swap Find_swap)

section \<open>The reserved prefix \<^verbatim>\<open>SWAP.\<close>\<close>

text \<open>
  Claim C7.  Let \<open>nm\<close> be a leaf name that begins with the five bytes \<^verbatim>\<open>SWAP.\<close>, in a file
  system whose root directory is registered.  \<^verbatim>\<open>FileSystem::Create\<close> of \<open>nm\<close> in the root
  directory with \<open>isDir\<close> true returns false and changes nothing, whether the root is named
  by the path \<^verbatim>\<open>/nm\<close> or is the current directory.  With \<open>isDir\<close> false the reserved-prefix
  test is passed over: the call is the ordinary creation in the root directory, and when
  it returns false it is for one of the ordinary reasons: the name exists already, no
  sector is free for the header, the directory could not take the entry, or the data
  sectors could not be allocated.
\<close>

theorem Create_reserved_prefix:
  assumes root: "fsSynchList st DIRECTORY_SECTOR \<noteq> None"
      and leaf: "CHR ''/'' \<notin> set nm"
      and prefix: "take 5 nm = ''SWAP.''"
  shows "Create st (CHR ''/'' # nm) initialSize True = Inr (False, st)
       \<and> (currentDir st = DIRECTORY_SECTOR \<longrightarrow> Create st nm initialSize True = Inr (False, st))
       \<and> Create st (CHR ''/'' # nm) initialSize False
           = Create_in st DIRECTORY_SECTOR nm initialSize False
       \<and> (\<forall>st'. Create st (CHR ''/'' # nm) initialSize False = Inr (False, st') \<longrightarrow>
            (\<exists>dh dir. fsSynchList st DIRECTORY_SECTOR = Some dh
               \<and> Directory_FetchFrom st DIRECTORY_SECTOR dh = Inr dir
               \<and> (Directory_Find dir nm \<noteq> - 1
                  \<or> fst (Bitmap_Find (diskFreeMap st)) = - 1
                  \<or> (\<exists>dir' fm1 st1.
                        Directory_Add st dir nm (nat (fst (Bitmap_Find (diskFreeMap st)))) False
                           (snd (Bitmap_Find (diskFreeMap st))) DIRECTORY_SECTOR
                          = Inr (False, dir', fm1, st1))
                  \<or> (\<exists>dir' fm1 st1.
                        Directory_Add st dir nm (nat (fst (Bitmap_Find (diskFreeMap st)))) False
                           (snd (Bitmap_Find (diskFreeMap st))) DIRECTORY_SECTOR
                          = Inr (True, dir', fm1, st1)
                        \<and> fst (Allocate fm1 fresh_header initialSize) = False))))"
proof -
  from prefix have ne: "nm \<noteq> []" by auto
  have sp: "SplitPath (CHR ''/'' # nm) = Some (''/'', nm)"
    using leaf ne by (rule SplitPath_root_leaf)
  have fd: "FindDirectory st ''/'' = Inr (Some DIRECTORY_SECTOR, st)"
    using root by (rule FindDirectory_root)
  have pre: "strncmp_eq ''SWAP.'' nm 5" using prefix by (simp add: strncmp_eq_def)
  have a: "Create st (CHR ''/'' # nm) initialSize True = Inr (False, st)"
    using sp fd pre by (simp add: Create_def)
  have b: "currentDir st = DIRECTORY_SECTOR \<longrightarrow> Create st nm initialSize True = Inr (False, st)"
  proof
    assume c: "currentDir st = DIRECTORY_SECTOR"
    have "SplitPath nm = Some ([], nm)" using leaf ne by (rule SplitPath_leaf)
    moreover have "FindDirectory st [] = Inr (Some DIRECTORY_SECTOR, st)"
      using FindDirectory_current[of st] root c by simp
    ultimately show "Create st nm initialSize True = Inr (False, st)"
      using pre by (simp add: Create_def)
  qed
  have c: "Create st (CHR ''/'' # nm) initialSize False
           = Create_in st DIRECTORY_SECTOR nm initialSize False"
    using sp fd by (simp add: Create_def)
  show ?thesis
    apply (intro conjI)
       apply (rule a)
      apply (rule b)
     apply (rule c)
    unfolding c
    apply (intro allI impI)
    apply (erule Create_in_fails_why)
    done
qed

theorem Create_reserved_prefix_witness:
  "Create formatted_disk ''/SWAP.0'' 250 True = Inr (False, formatted_disk)
   \<and> Create formatted_disk ''SWAP.0'' 250 True = Inr (False, formatted_disk)
   \<and> Create formatted_disk ''/SWAP.0'' 250 False = Inr (True, swap_file_disk)
   \<and> Create swap_file_disk ''/SWAP.0'' 250 True = Inr (False, swap_file_disk)
   \<and> Create swap_file_disk ''/SWAP.0'' 250 False = Inr (False, swap_file_disk)
   \<and> Directory_Find (swap_entry # replicate 9 unused_entry) ''SWAP.0'' \<noteq> - 1"
proof -
  have l: "CHR ''/'' \<notin> set ''SWAP.0''" by simp
  have p: "take 5 ''SWAP.0'' = ''SWAP.''" by simp
  have r1: "fsSynchList formatted_disk DIRECTORY_SECTOR \<noteq> None"
    by (simp add: formatted_root)
  have r2: "fsSynchList swap_file_disk DIRECTORY_SECTOR \<noteq> None"
    by (simp add: swap_root)
  note t1 = Create_reserved_prefix [OF r1 l p, where initialSize = 250]
  note t2 = Create_reserved_prefix [OF r2 l p, where initialSize = 250]
  have a1: "Create formatted_disk ''/SWAP.0'' 250 True = Inr (False, formatted_disk)"
    using t1 by (rule conjunct1)
  have "currentDir formatted_disk = DIRECTORY_SECTOR \<longrightarrow>
        Create formatted_disk ''SWAP.0'' 250 True = Inr (False, formatted_disk)"
    using t1 by (rule conjunct1 [OF conjunct2])
  then have a2: "Create formatted_disk ''SWAP.0'' 250 True = Inr (False, formatted_disk)"
    by (simp add: formatted_current)
  have "Create formatted_disk ''/SWAP.0'' 250 False
          = Create_in formatted_disk DIRECTORY_SECTOR ''SWAP.0'' 250 False"
    using t1 by (rule conjunct1 [OF conjunct2 [OF conjunct2]])
  then have a3: "Create formatted_disk ''/SWAP.0'' 250 False = Inr (True, swap_file_disk)"
    by (simp add: Create_swap_file)
  have a4: "Create swap_file_disk ''/SWAP.0'' 250 True = Inr (False, swap_file_disk)"
    using t2 by (rule conjunct1)
  have "Create swap_file_disk ''/SWAP.0'' 250 False
          = Create_in swap_file_disk DIRECTORY_SECTOR ''SWAP.0'' 250 False"
    using t2 by (rule conjunct1 [OF conjunct2 [OF conjunct2]])
  then have a5: "Create swap_file_disk ''/SWAP.0'' 250 False = Inr (False, swap_file_disk)"
    by (simp add: Create_swap_file_again)
  have a6: "Directory_Find (swap_entry # replicate 9 unused_entry) ''SWAP.0'' \<noteq> - 1"
    by (simp add: Find_swap)
  show ?thesis
    apply (intro conjI)
         apply (rule a1)
        apply (rule a2)
       apply (rule a3)
      apply (rule a4)
     apply (rule a5)
    apply (rule a6)
    done
qed

section \<open>A failed \<^verbatim>\<open>Create\<close> on a full directory\<close>

lemma root_with_root: "fsSynchList (root_with k) DIRECTORY_SECTOR = Some root_header"
  by (simp add: root_with_def formatted_root)

lemma root_with_map: "diskFreeMap (root_with k) = prefix_marked (6 + k) (122 - k)"
  by (simp add: root_with_def)

lemma root_with_table:
  assumes "k \<le> 10"
  shows "Directory_FetchFrom (root_with k) DIRECTORY_SECTOR root_header = Inr (root_table k)"
proof -
  have split: "[0..<10] = [0..<k] @ [k..<10]"
    using assms by (metis le_add_diff_inverse upt_add_eq_append zero_le)
  have "Directory_FetchFrom (root_with k) DIRECTORY_SECTOR root_header
          = Inr (map (\<lambda>i. if i < k then file_entry i else unused_entry) [0..<10])"
    by (simp add: Directory_FetchFrom_def Let_def root_header_def ENTRY_SIZE_def root_with_def)
  also have "map (\<lambda>i. if i < k then file_entry i else unused_entry) [0..<10] = root_table k"
  proof -
    have "map (\<lambda>i. if i < k then file_entry i else unused_entry) [k..<10]
            = map (\<lambda>i. unused_entry) [k..<10]"
      by (rule map_cong) auto
    then show ?thesis
      unfolding root_table_def by (subst split) (simp add: map_replicate_const)
  qed
  finally show ?thesis .
qed

lemma FindIndex_from_none:
  "\<forall>e \<in> set es. \<not> (inUse e \<and> strncmp_eq (name e) nm FILE_NAME_MAX_LEN)
     \<Longrightarrow> FindIndex_from j es nm = - 1"
  by (induction es arbitrary: j) simp_all

lemma FindIndex_root_table:
  assumes "\<forall>i < k. \<not> strncmp_eq (file_name i) nm FILE_NAME_MAX_LEN"
  shows "FindIndex (root_table k) nm = - 1"
  unfolding FindIndex_def
  by (rule FindIndex_from_none) (use assms in \<open>auto simp: root_table_def file_entry_def unused_entry_def\<close>)

lemma first_unused_append:
  "\<forall>e \<in> set xs. inUse e \<Longrightarrow> first_unused j (xs @ ys) = first_unused (j + length xs) ys"
  by (induction xs arbitrary: j) simp_all

lemma first_unused_root_table:
  "first_unused 0 (root_table k) = (if k < 10 then Some k else None)"
proof -
  have u: "\<forall>e \<in> set (map file_entry [0..<k]). inUse e"
    by (simp add: file_entry_def)
  have "first_unused 0 (root_table k) = first_unused k (replicate (10 - k) unused_entry)"
    unfolding root_table_def using first_unused_append [OF u] by simp
  also have "\<dots> = (if k < 10 then Some k else None)"
    by (simp add: first_unused_replicate)
  finally show ?thesis .
qed

lemma big_is_new:
  "\<not> strncmp_eq (file_name i) ''big'' FILE_NAME_MAX_LEN"
  by (simp add: strncmp_eq_def file_name_def FILE_NAME_MAX_LEN_def)

lemma Expand_root:
  "Expand (prefix_marked 17 111) root_header 160 = Inr (True, prefix_marked 18 110, grown_root_header)"
proof -
  have ns: "Expand_newSectors root_header 160 = Suc 0"
    by (simp add: Expand_newSectors_def onLastSector_def root_header_def SECTOR_SIZE_def
        DivRoundUp_def Let_def)
  have is0: "Expand_indirSectors root_header 160 (Suc 0) = 0"
    by (simp add: Expand_indirSectors_def root_header_def fresh_header_def MAX_DIRECT_SIZE_val
        u32_def)
  have f: "Bitmap_Find (prefix_marked 17 111) = (17, prefix_marked 18 110)"
    by (simp add: Bitmap_Find_prefix_marked_num)
  have claim: "Expand_claim (prefix_marked 17 111) root_header 160 (Suc 0) 0
                 = (prefix_marked 18 110, grown_root_header)"
    apply (simp add: Expand_claim_def Let_def root_header_def fresh_header_def NUM_DIRECT_val
        u32_def grown_root_header_def)
    apply (subst expand_direct.simps)
    apply (simp add: f to_unsigned_def usub_def)
    apply (subst expand_direct.simps)
    apply simp
    done
  show ?thesis
    by (simp add: Expand_def Let_def ns is0 claim u32_def)
qed

lemma Allocate_too_big:
  "Allocate (prefix_marked 18 110) fresh_header 20000
     = (False, prefix_marked 18 110, fresh_header\<lparr>numBytes := 20000, numSectors := 157\<rparr>)"
proof -
  have n: "DivRoundUp 20000 SECTOR_SIZE = 157"
    by (simp add: DivRoundUp_def SECTOR_SIZE_def)
  have i: "Allocate_indirSectors 20000 = 133"
    by (simp add: Allocate_indirSectors_def MAX_DIRECT_SIZE_val DivRoundUp_def SECTOR_SIZE_def
        NUM_INDIRECT_val u32_def Let_def)
  show ?thesis
    by (simp add: Allocate_def Let_def n i u32_def)
qed

lemma Add_full_root:
  "Directory_Add (root_with 10) (root_table 10) ''big'' 16 False (prefix_marked 17 111)
       DIRECTORY_SECTOR
     = Inr (True, fill_entry (root_table 10 @ replicate NEW_DIR_ENTRIES unused_entry) 10 ''big'' 16 False,
            prefix_marked 18 110, failed_create_disk)"
proof -
  have fi: "FindIndex (root_table 10) ''big'' = - 1"
    by (rule FindIndex_root_table) (simp add: big_is_new)
  have fu: "first_unused 0 (root_table 10) = None"
    by (simp add: first_unused_root_table)
  have len: "length (root_table 10) = 10"
    by (simp add: root_table_def)
  have ex: "ExpandDirectory (root_with 10) (root_table 10) (prefix_marked 17 111) DIRECTORY_SECTOR
              = Inr (True, root_table 10 @ replicate NEW_DIR_ENTRIES unused_entry,
                     prefix_marked 18 110, failed_create_disk)"
    by (simp add: ExpandDirectory_def root_with_root NEW_DIR_ENTRIES_def ENTRY_SIZE_def
        Expand_root failed_create_disk_def)
  have free: "\<not> inUse ((root_table 10 @ replicate NEW_DIR_ENTRIES unused_entry) ! 10)"
    by (simp add: nth_append len NEW_DIR_ENTRIES_def unused_entry_def)
  show ?thesis
    using free by (simp add: Directory_Add_def fi fu ex len Let_def)
qed

lemma Create_fails_on_full_root:
  "Create (root_with 10) ''/big'' 20000 False = Inr (False, failed_create_disk)"
proof -
  have sp: "SplitPath ''/big'' = Some (''/'', ''big'')"
    by (rule SplitPath_root_leaf) simp_all
  have fd: "FindDirectory (root_with 10) ''/'' = Inr (Some DIRECTORY_SECTOR, root_with 10)"
    by (rule FindDirectory_root) (simp add: root_with_root)
  have tab: "Directory_FetchFrom (root_with 10) DIRECTORY_SECTOR root_header = Inr (root_table 10)"
    by (rule root_with_table) simp
  have fi: "FindIndex (root_table 10) ''big'' = - 1"
    by (rule FindIndex_root_table) (simp add: big_is_new)
  have nf: "Directory_Find (root_table 10) ''big'' = - 1"
    by (simp add: Directory_Find_def fi)
  have bf: "Bitmap_Find (diskFreeMap (root_with 10)) = (16, prefix_marked 17 111)"
    by (simp add: root_with_map Bitmap_Find_prefix_marked_num)
  have "Create_in (root_with 10) DIRECTORY_SECTOR ''big'' 20000 False = Inr (False, failed_create_disk)"
    by (simp add: Create_in_def root_with_root tab nf bf Add_full_root Allocate_too_big)
  then show ?thesis
    by (simp add: Create_def sp fd)
qed

lemma failed_create_changes_header:
  "diskHeaders failed_create_disk DIRECTORY_SECTOR = grown_root_header
   \<and> diskHeaders (root_with 10) DIRECTORY_SECTOR = root_header
   \<and> numBytes grown_root_header = 480 \<and> numBytes root_header = 320"
  by (simp add: failed_create_disk_def root_with_def formatted_disk_def grown_root_header_def
      root_header_def)

lemma Allocate_empty:
  "Allocate fm fresh_header 0 = (True, fm, fresh_header)"
  by (simp add: Allocate_def Allocate_indirSectors_def Let_def DivRoundUp_def u32_def
      fresh_header_def)

lemma file_names_differ:
  assumes "i < k" and "k < 10"
  shows "\<not> strncmp_eq (file_name i) (file_name k) FILE_NAME_MAX_LEN"
  using assms
  by (simp add: strncmp_eq_def file_name_def FILE_NAME_MAX_LEN_def replicate_eq_replicate
      del: replicate_Suc)

lemma fill_root_table:
  assumes "k < 10"
  shows "fill_entry (root_table k) k (file_name k) (6 + k) False = root_table (Suc k)"
proof -
  have r: "replicate (10 - k) unused_entry = unused_entry # replicate (9 - k) unused_entry"
    using assms by (cases "10 - k") (simp_all add: Suc_diff_Suc)
  have t: "take FILE_NAME_MAX_LEN (file_name k) = file_name k"
    using assms by (simp add: FILE_NAME_MAX_LEN_def file_name_def)
  have n: "(map file_entry [0..<k] @ unused_entry # replicate (9 - k) unused_entry) ! k
             = unused_entry"
    by (simp add: nth_append)
  have u: "(map file_entry [0..<k] @ unused_entry # replicate (9 - k) unused_entry)[k := e]
             = map file_entry [0..<k] @ e # replicate (9 - k) unused_entry" for e
    by (simp add: list_update_append)
  have e: "unused_entry\<lparr>inUse := True, name := file_name k, sector := 6 + k, isDir := False\<rparr>
             = file_entry k"
    by (simp add: unused_entry_def file_entry_def)
  have s: "10 - Suc k = 9 - k" by simp
  show ?thesis
    unfolding fill_entry_def root_table_def r t n u e s by simp
qed

lemma Add_root_table:
  assumes "k < 10"
  shows "Directory_Add st (root_table k) (file_name k) (6 + k) False fm dsec
           = Inr (True, root_table (Suc k), fm, st)"
proof -
  have fi: "FindIndex (root_table k) (file_name k) = - 1"
    by (rule FindIndex_root_table) (use assms in \<open>simp add: file_names_differ\<close>)
  show ?thesis
    using assms by (simp add: Directory_Add_def fi first_unused_root_table fill_root_table)
qed

lemma root_table_nth:
  "i < 10 \<Longrightarrow> k \<le> 10 \<Longrightarrow> root_table k ! i = (if i < k then file_entry i else unused_entry)"
  by (simp add: root_table_def nth_append)

lemma WriteBack_root_table:
  assumes "k < 10"
  shows "Directory_WriteBack (root_with k) DIRECTORY_SECTOR root_header (root_table (Suc k))
           = Inr ((root_with k)\<lparr>diskDirs := (diskDirs formatted_disk)
                       (DIRECTORY_SECTOR := (\<lambda>i. if i < Suc k then file_entry i else unused_entry))\<rparr>)"
proof -
  have len: "length (root_table (Suc k)) = 10"
    using assms by (simp add: root_table_def)
  have f: "(\<lambda>i. if i < 10 then root_table (Suc k) ! i else diskDirs (root_with k) DIRECTORY_SECTOR i)
             = (\<lambda>i. if i < Suc k then file_entry i else unused_entry)"
  proof
    fix i
    show "(if i < 10 then root_table (Suc k) ! i else diskDirs (root_with k) DIRECTORY_SECTOR i)
            = (if i < Suc k then file_entry i else unused_entry)"
    proof (cases "i < 10")
      case True
      with assms show ?thesis by (simp add: root_table_nth)
    next
      case False
      with assms show ?thesis by (simp add: root_with_def)
    qed
  qed
  have d: "(diskDirs (root_with k))(DIRECTORY_SECTOR := g) = (diskDirs formatted_disk)(DIRECTORY_SECTOR := g)" for g
    by (simp add: root_with_def)
  show ?thesis
    by (simp add: Directory_WriteBack_def Let_def root_header_def ENTRY_SIZE_def len f d)
qed

lemma Create_next_file:
  assumes "k < 10"
  shows "Create (root_with k) (CHR ''/'' # file_name k) 0 False = Inr (True, root_with (Suc k))"
proof -
  have sp: "SplitPath (CHR ''/'' # file_name k) = Some (''/'', file_name k)"
    by (rule SplitPath_root_leaf) (simp_all add: file_name_def)
  have fd: "FindDirectory (root_with k) ''/'' = Inr (Some DIRECTORY_SECTOR, root_with k)"
    by (rule FindDirectory_root) (simp add: root_with_root)
  have tab: "Directory_FetchFrom (root_with k) DIRECTORY_SECTOR root_header = Inr (root_table k)"
    by (rule root_with_table) (use assms in simp)
  have fi: "FindIndex (root_table k) (file_name k) = - 1"
    by (rule FindIndex_root_table) (use assms in \<open>simp add: file_names_differ\<close>)
  have nf: "Directory_Find (root_table k) (file_name k) = - 1"
    by (simp add: Directory_Find_def fi)
  have bf: "Bitmap_Find (diskFreeMap (root_with k))
              = (int (6 + k), prefix_marked (6 + Suc k) (122 - Suc k))"
    using assms by (simp add: root_with_map Bitmap_Find_prefix_marked)
  have hd: "(root_with k)\<lparr>diskHeaders := (diskHeaders (root_with k))(6 + k := fresh_header)\<rparr>
              = root_with k"
    by (simp add: root_with_def formatted_disk_def FREE_MAP_SECTOR_def DIRECTORY_SECTOR_def
        fun_upd_idem)
  have fin: "(root_with k)\<lparr>diskDirs := (diskDirs formatted_disk)
                       (DIRECTORY_SECTOR := (\<lambda>i. if i < Suc k then file_entry i else unused_entry)),
                 diskFreeMap := prefix_marked (7 + k) (121 - k)\<rparr> = root_with (Suc k)"
    by (simp add: root_with_def)
  have sec: "nat (6 + int k) = 6 + k" by simp
  have "Create_in (root_with k) DIRECTORY_SECTOR (file_name k) 0 False
          = Inr (True, root_with (Suc k))"
    using assms
    by (simp add: Create_in_def root_with_root tab nf bf sec Add_root_table Allocate_empty hd
        WriteBack_root_table fin Let_def del: replicate_Suc)
  then show ?thesis
    by (simp add: Create_def sp fd)
qed

lemma Create_files_from:
  assumes "k \<le> 10"
  shows "Create_files (root_with k) (map (\<lambda>i. CHR ''/'' # file_name i) [k..<10])
           = Inr (True, root_with 10)"
  using assms
proof (induction "10 - k" arbitrary: k)
  case 0
  then show ?case by simp
next
  case (Suc n)
  then have k: "k < 10" by simp
  then have l: "[k..<10] = k # [Suc k..<10]" by (simp add: upt_conv_Cons)
  have "Create_files (root_with (Suc k)) (map (\<lambda>i. CHR ''/'' # file_name i) [Suc k..<10])
          = Inr (True, root_with 10)"
    using Suc by (intro Suc.hyps(1)) simp_all
  then show ?case
    unfolding l using k by (simp add: Create_next_file)
qed

lemma root_with_0: "root_with 0 = formatted_disk"
  by (simp add: root_with_def formatted_disk_def fun_eq_iff)

lemma ten_files_fill_root:
  "Create_files formatted_disk (map (\<lambda>i. CHR ''/'' # file_name i) [0..<10]) = Inr (True, root_with 10)"
  using Create_files_from [of 0] by (simp add: root_with_0)

text \<open>
  Claim C3.  \<^verbatim>\<open>FileSystem::Create\<close> can return false and leave the disk changed.  Ten calls
  \<^verbatim>\<open>Create(p, 0, false)\<close> on the formatted disk of 128 sectors fill the root directory.  Then
  \<^verbatim>\<open>Create("/big", 20000, false)\<close> finds no free entry, \<^verbatim>\<open>Directory::Add\<close> grows the directory
  and \<^verbatim>\<open>ExpandDirectory\<close> writes the grown header to the header sector of the root directory
  at once; \<^verbatim>\<open>Allocate\<close> then fails for lack of space and \<^verbatim>\<open>Create\<close> returns false.  The
  header of the root directory on the disk now has 480 bytes in four sectors, the fourth
  being sector 17, while the free map on the disk is the one from before the call, in which
  sector 17 is clear.
\<close>

theorem Create_failure_changes_disk:
  "Create_files formatted_disk (map (\<lambda>i. CHR ''/'' # file_name i) [0..<10])
     = Inr (True, root_with 10)
   \<and> Create (root_with 10) ''/big'' 20000 False = Inr (False, failed_create_disk)
   \<and> diskHeaders (root_with 10) DIRECTORY_SECTOR = root_header
   \<and> diskHeaders failed_create_disk DIRECTORY_SECTOR = grown_root_header
   \<and> numBytes root_header = 320 \<and> numBytes grown_root_header = 480
   \<and> ByteToSector grown_root_header 384 = Some 17
   \<and> diskFreeMap failed_create_disk = diskFreeMap (root_with 10)
   \<and> \<not> Bitmap_Test (diskFreeMap failed_create_disk) 17
   \<and> on_disk failed_create_disk \<noteq> on_disk (root_with 10)"
proof -
  have h: "diskHeaders failed_create_disk DIRECTORY_SECTOR = grown_root_header
     \<and> diskHeaders (root_with 10) DIRECTORY_SECTOR = root_header
     \<and> numBytes grown_root_header = 480 \<and> numBytes root_header = 320"
    by (rule failed_create_changes_header)
  have b: "ByteToSector grown_root_header 384 = Some 17"
    by (simp add: ByteToSector_def Let_def SECTOR_SIZE_def NUM_DIRECT_val grown_root_header_def
        root_header_def fresh_header_def)
  have m: "diskFreeMap failed_create_disk = diskFreeMap (root_with 10)"
    by (simp add: failed_create_disk_def)
  have t: "\<not> Bitmap_Test (diskFreeMap failed_create_disk) 17"
    by (simp add: m root_with_map Bitmap_Test_def prefix_marked_def nth_append)
  have h1: "diskHeaders failed_create_disk DIRECTORY_SECTOR = grown_root_header"
    by (rule conjunct1 [OF h])
  have h2: "diskHeaders (root_with 10) DIRECTORY_SECTOR = root_header"
    by (rule conjunct1 [OF conjunct2 [OF h]])
  have h3: "numBytes grown_root_header = 480"
    by (rule conjunct1 [OF conjunct2 [OF conjunct2 [OF h]]])
  have h4: "numBytes root_header = 320"
    by (rule conjunct2 [OF conjunct2 [OF conjunct2 [OF h]]])
  have "diskHeaders failed_create_disk \<noteq> diskHeaders (root_with 10)"
  proof
    assume eq: "diskHeaders failed_create_disk = diskHeaders (root_with 10)"
    have "grown_root_header = diskHeaders failed_create_disk DIRECTORY_SECTOR"
      by (rule h1 [symmetric])
    also have "\<dots> = diskHeaders (root_with 10) DIRECTORY_SECTOR"
      by (simp only: eq)
    also have "\<dots> = root_header" by (rule h2)
    finally have "numBytes grown_root_header = numBytes root_header" by (rule arg_cong)
    then show False unfolding h3 h4 by simp
  qed
  then have d: "on_disk failed_create_disk \<noteq> on_disk (root_with 10)"
    by (simp add: on_disk_def)
  show ?thesis
    apply (intro conjI)
             apply (rule ten_files_fill_root)
            apply (rule Create_fails_on_full_root)
           apply (rule h2)
          apply (rule h1)
         apply (rule h4)
        apply (rule h3)
       apply (rule b)
      apply (rule m)
     apply (rule t)
    apply (rule d)
    done
qed

section \<open>Removing a file that is open\<close>








lemma clear_all_Nil [simp]: "clear_all bm [] = bm"
  by (simp add: clear_all_def)




























lemma big_root: "fsSynchList (big_swap_disk\<lparr>fileSynchList := r\<rparr>) DIRECTORY_SECTOR = Some root_header"
  by (simp add: big_swap_disk_def swap_root)










lemma row_sectors_unused [simp]: "row_sectors (replicate n (- 1)) = []"
  by (cases n) simp_all

lemma indir_sectors_unused [simp]: "indir_sectors (replicate n (- 1)) sI = []"
  by (cases n) simp_all























































end
